theory Spec2Isabelle
  imports Main "HOL-Library.AList"
begin

section \<open>The critical path engine of scripts/script3.py\<close>

text \<open>
  The engine is the part of \<^verbatim>\<open>script3.py\<close> between \<^verbatim>\<open>class Task\<close> and
  \<^verbatim>\<open>perform_critical_path_analysis\<close>. Every definition below follows one source function.

  Dates are pandas Timestamps and \<^verbatim>\<open>timedelta\<close>s; both are exact counts of nanoseconds, so
  they are integers here. \<^verbatim>\<open>.days\<close> of a difference of two Timestamps is its floor in whole
  days. A Timestamp is never falsy, so \<^verbatim>\<open>if task.early_start:\<close> is the test
  \<^verbatim>\<open>is not None\<close>. The missing date \<^verbatim>\<open>NaT\<close> is outside the model.
\<close>

subsection \<open>Dates, exceptions, loops\<close>

type_synonym timestamp = int
type_synonym timedelta = int

definition ns_per_day :: int where
  "ns_per_day = 86400000000000"

definition days :: "timedelta \<Rightarrow> int" where
  "days d = d div ns_per_day"

datatype exn = TypeError | ValueError | RecursionError

text \<open>
  A \<^verbatim>\<open>for\<close> loop whose body may raise: the state reached so far is kept (the objects were
  mutated in place) and the rest of the loop is skipped.
\<close>

fun for_each :: "('a \<Rightarrow> 's \<Rightarrow> 's \<times> exn option) \<Rightarrow> 'a list \<Rightarrow> 's \<Rightarrow> 's \<times> exn option" where
  "for_each f [] s = (s, None)"
| "for_each f (x # xs) s =
     (case f x s of
        (s', None) \<Rightarrow> for_each f xs s'
      | (s', Some e) \<Rightarrow> (s', Some e))"

subsection \<open>Input rows and the Task class\<close>

text \<open>
  One row of the data frame, with the columns \<^verbatim>\<open>create_task_objects\<close> reads.
  \<open>planned_duration\<close> holds the value of \<^verbatim>\<open>timedelta(days=row['planned_duration'])\<close>: the
  column is a float number of days (fractions allowed) and its conversion is floating point,
  so the row carries the converted value. \<open>pred_task_id = None\<close> is a cell for which
  \<^verbatim>\<open>pd.notna\<close> is false.
\<close>

record row =
  row_task_id :: string
  row_task_name :: string
  target_start_date :: timestamp
  target_end_date :: timestamp
  planned_duration :: timedelta
  pred_task_id :: "string option"

record task =
  task_id :: string
  name :: string
  planned_start :: timestamp
  planned_finish :: timestamp
  duration :: timedelta
  predecessors :: "string list"
  successors :: "string list"
  early_start :: "timestamp option"
  early_finish :: "timestamp option"
  late_start :: "timestamp option"
  late_finish :: "timestamp option"
  total_float :: "int option"
  free_float :: "int option"
  is_critical :: bool

text \<open>
  The dict \<^verbatim>\<open>tasks\<close>: keys in insertion order. \<^verbatim>\<open>tasks[k] = v\<close> is \<open>AList.update\<close>
  (an existing key keeps its place and gets the new value); a mutation of the object stored
  under \<open>k\<close> is \<open>modify\<close>.
\<close>

type_synonym tasks = "(string \<times> task) list"

definition has_key :: "tasks \<Rightarrow> string \<Rightarrow> bool" where
  "has_key tasks k = (map_of tasks k \<noteq> None)"

definition modify :: "string \<Rightarrow> (task \<Rightarrow> task) \<Rightarrow> tasks \<Rightarrow> tasks" where
  "modify k f tasks = map (\<lambda>(k', t). if k' = k then (k', f t) else (k', t)) tasks"

text \<open>\<^verbatim>\<open>s.split(', ')\<close>: the pieces between the occurrences of the separator, left to right.\<close>

fun split_comma_space :: "string \<Rightarrow> string \<Rightarrow> string list" where
  "split_comma_space acc [] = [rev acc]"
| "split_comma_space acc [c] = [rev (c # acc)]"
| "split_comma_space acc (c # d # cs) =
     (if c = CHR '','' \<and> d = CHR '' '' then rev acc # split_comma_space [] cs
      else split_comma_space (c # acc) (d # cs))"

definition Task_init :: "row \<Rightarrow> task" where
  "Task_init r =
     \<lparr> task_id = row_task_id r,
       name = row_task_name r,
       planned_start = target_start_date r,
       planned_finish = target_end_date r,
       duration = planned_duration r,
       predecessors = (case pred_task_id r of Some s \<Rightarrow> split_comma_space [] s | None \<Rightarrow> []),
       successors = [],
       early_start = None,
       early_finish = None,
       late_start = None,
       late_finish = None,
       total_float = None,
       free_float = None,
       is_critical = False \<rparr>"

subsection \<open>create_task_objects\<close>

definition insert_rows :: "row list \<Rightarrow> tasks" where
  "insert_rows df = fold (\<lambda>r tasks. AList.update (row_task_id r) (Task_init r) tasks) df []"

definition append_successor :: "string \<Rightarrow> task \<Rightarrow> task" where
  "append_successor s t = t\<lparr>successors := successors t @ [s]\<rparr>"

definition link_task :: "task \<Rightarrow> tasks \<Rightarrow> tasks" where
  "link_task t tasks =
     fold (\<lambda>pred_id tasks.
             if has_key tasks pred_id then modify pred_id (append_successor (task_id t)) tasks
             else tasks)
          (predecessors t) tasks"

definition create_task_objects :: "row list \<Rightarrow> tasks" where
  "create_task_objects df =
     (let tasks = insert_rows df in fold link_task (map snd tasks) tasks)"

subsection \<open>forward_pass\<close>

definition pred_finish_dates :: "tasks \<Rightarrow> task \<Rightarrow> timestamp list" where
  "pred_finish_dates tasks t =
     List.map_filter (\<lambda>pred_id. Option.bind (map_of tasks pred_id) early_finish) (predecessors t)"

text \<open>The body of the forward \<^verbatim>\<open>process_task\<close> between the early return and the loop.\<close>

definition fwd_visit :: "tasks \<Rightarrow> task \<Rightarrow> task" where
  "fwd_visit tasks t =
     (let t1 = (if predecessors t = [] then t\<lparr>early_start := Some (planned_start t)\<rparr>
                else (case pred_finish_dates tasks t of
                        [] \<Rightarrow> t
                      | d # ds \<Rightarrow> t\<lparr>early_start := Some (fold max ds d)\<rparr>))
      in (case early_start t1 of
            Some es \<Rightarrow> t1\<lparr>early_finish := Some (es + duration t1)\<rparr>
          | None \<Rightarrow> t1))"

text \<open>
  The two passes each have a nested function \<^verbatim>\<open>process_task\<close>; they are
  \<open>fwd_process_task\<close> and \<open>bwd_process_task\<close> here, and the task is passed by its id. The
  recursion is bounded by the interpreter's recursion limit: the first argument is the
  number of nested calls still allowed, and a call with none left raises
  \<^verbatim>\<open>RecursionError\<close>. A call for an id that is not in the table does not occur: every
  caller passes the id of a task of the table.
\<close>

fun fwd_process_task :: "nat \<Rightarrow> string \<Rightarrow> tasks \<Rightarrow> tasks \<times> exn option" where
  "fwd_process_task 0 tid tasks = (tasks, Some RecursionError)"
| "fwd_process_task (Suc n) tid tasks =
     (case map_of tasks tid of
        None \<Rightarrow> (tasks, None)
      | Some t \<Rightarrow>
          if early_start t \<noteq> None then (tasks, None)
          else for_each (\<lambda>succ_id tasks.
                           if has_key tasks succ_id then fwd_process_task n succ_id tasks
                           else (tasks, None))
                 (successors t) (modify tid (\<lambda>_. fwd_visit tasks t) tasks))"

definition forward_pass :: "nat \<Rightarrow> tasks \<Rightarrow> tasks \<times> exn option" where
  "forward_pass limit tasks =
     for_each (\<lambda>t tasks. if predecessors t = [] then fwd_process_task limit (task_id t) tasks
                          else (tasks, None))
       (map snd tasks) tasks"

subsection \<open>backward_pass\<close>

definition succ_start_dates :: "tasks \<Rightarrow> task \<Rightarrow> timestamp list" where
  "succ_start_dates tasks t =
     List.map_filter (\<lambda>succ_id. Option.bind (map_of tasks succ_id) late_start) (successors t)"

definition bwd_visit :: "tasks \<Rightarrow> task \<Rightarrow> task" where
  "bwd_visit tasks t =
     (let t1 = (if successors t = [] then t\<lparr>late_finish := early_finish t\<rparr>
                else (case succ_start_dates tasks t of
                        [] \<Rightarrow> t\<lparr>late_finish := early_finish t\<rparr>
                      | d # ds \<Rightarrow> t\<lparr>late_finish := Some (fold min ds d)\<rparr>))
      in (case late_finish t1 of
            Some lf \<Rightarrow> t1\<lparr>late_start := Some (lf - duration t1)\<rparr>
          | None \<Rightarrow> t1))"

fun bwd_process_task :: "nat \<Rightarrow> string \<Rightarrow> tasks \<Rightarrow> tasks \<times> exn option" where
  "bwd_process_task 0 tid tasks = (tasks, Some RecursionError)"
| "bwd_process_task (Suc n) tid tasks =
     (case map_of tasks tid of
        None \<Rightarrow> (tasks, None)
      | Some t \<Rightarrow>
          if late_finish t \<noteq> None then (tasks, None)
          else for_each (\<lambda>pred_id tasks.
                           if has_key tasks pred_id then bwd_process_task n pred_id tasks
                           else (tasks, None))
                 (predecessors t) (modify tid (\<lambda>_. bwd_visit tasks t) tasks))"

text \<open>
  \<^verbatim>\<open>max(tasks.values(), key=lambda t: t.early_finish)\<close>: the first task with the greatest
  key; comparing with a key that is \<^verbatim>\<open>None\<close> raises \<^verbatim>\<open>TypeError\<close>, and an empty table
  raises \<^verbatim>\<open>ValueError\<close>.
\<close>

fun max_early_finish_from :: "task \<Rightarrow> task list \<Rightarrow> exn + task" where
  "max_early_finish_from cur [] = Inr cur"
| "max_early_finish_from cur (t # ts) =
     (case (early_finish t, early_finish cur) of
        (Some v, Some m) \<Rightarrow> max_early_finish_from (if v > m then t else cur) ts
      | _ \<Rightarrow> Inl TypeError)"

definition max_early_finish :: "task list \<Rightarrow> exn + task" where
  "max_early_finish ts = (case ts of [] \<Rightarrow> Inl ValueError | t # ts' \<Rightarrow> max_early_finish_from t ts')"

definition backward_pass :: "nat \<Rightarrow> tasks \<Rightarrow> tasks \<times> exn option" where
  "backward_pass limit tasks =
     (let end_tasks = filter (\<lambda>t. successors t = []) (map snd tasks) in
      if end_tasks = [] then
        (case max_early_finish (map snd tasks) of
           Inl e \<Rightarrow> (tasks, Some e)
         | Inr latest_task \<Rightarrow>
             for_each (\<lambda>t. bwd_process_task limit (task_id t)) [latest_task]
               (modify (task_id latest_task) (\<lambda>t. t\<lparr>late_finish := early_finish t\<rparr>) tasks))
      else for_each (\<lambda>t. bwd_process_task limit (task_id t)) end_tasks tasks)"

subsection \<open>calculate_floats_and_critical_path\<close>

text \<open>
  The generator handed to \<^verbatim>\<open>min\<close>: one value per successor found in the table; a
  subtraction with an unset date raises \<^verbatim>\<open>TypeError\<close>.
\<close>

fun free_float_values :: "tasks \<Rightarrow> task \<Rightarrow> string list \<Rightarrow> exn + int list" where
  "free_float_values tasks t [] = Inr []"
| "free_float_values tasks t (succ_id # rest) =
     (case map_of tasks succ_id of
        None \<Rightarrow> free_float_values tasks t rest
      | Some s \<Rightarrow>
          (case (early_start s, early_finish t) of
             (Some es, Some ef) \<Rightarrow>
               (case free_float_values tasks t rest of
                  Inl e \<Rightarrow> Inl e
                | Inr vs \<Rightarrow> Inr (days (es - ef) # vs))
           | _ \<Rightarrow> Inl TypeError))"

text \<open>The first \<^verbatim>\<open>if\<close> of the loop body: total float, the flag, and the append.\<close>

definition set_total_float :: "task \<Rightarrow> string list \<Rightarrow> task \<times> string list" where
  "set_total_float t critical_path =
     (case (early_start t, late_start t) of
        (Some es, Some ls) \<Rightarrow>
          (let t1 = t\<lparr>total_float := Some (days (ls - es))\<rparr>;
               t2 = t1\<lparr>is_critical := (total_float t1 = Some 0)\<rparr>
           in (t2, if is_critical t2 then critical_path @ [task_id t2] else critical_path))
      | _ \<Rightarrow> (t, critical_path))"

text \<open>The second \<^verbatim>\<open>if\<close>: free float, from the successors or from the total float.\<close>

definition set_free_float :: "tasks \<Rightarrow> task \<Rightarrow> exn + task" where
  "set_free_float tasks t =
     (if successors t \<noteq> [] then
        (case free_float_values tasks t (successors t) of
           Inl e \<Rightarrow> Inl e
         | Inr [] \<Rightarrow> Inl ValueError
         | Inr (v # vs) \<Rightarrow> Inr (t\<lparr>free_float := Some (fold min vs v)\<rparr>))
      else Inr (t\<lparr>free_float := total_float t\<rparr>))"

text \<open>
  The loop over \<^verbatim>\<open>tasks.values()\<close>, carrying the table and \<^verbatim>\<open>critical_path\<close>. An
  exception leaves the function, and with it \<^verbatim>\<open>perform_critical_path_analysis\<close>.
\<close>

fun floats_loop :: "string list \<Rightarrow> tasks \<Rightarrow> string list \<Rightarrow> exn + (tasks \<times> string list)" where
  "floats_loop [] tasks critical_path = Inr (tasks, critical_path)"
| "floats_loop (tid # rest) tasks critical_path =
     (case map_of tasks tid of
        None \<Rightarrow> floats_loop rest tasks critical_path
      | Some t \<Rightarrow>
          (case set_total_float t critical_path of
             (t1, cp1) \<Rightarrow>
               (case set_free_float tasks t1 of
                  Inl e \<Rightarrow> Inl e
                | Inr t2 \<Rightarrow> floats_loop rest (modify tid (\<lambda>_. t2) tasks) cp1)))"

definition calculate_floats_and_critical_path :: "tasks \<Rightarrow> exn + (tasks \<times> string list)" where
  "calculate_floats_and_critical_path tasks = floats_loop (map fst tasks) tasks []"

subsection \<open>perform_critical_path_analysis\<close>

record result_row =
  res_task_id :: string
  res_task_name :: string
  res_early_start :: "timestamp option"
  res_early_finish :: "timestamp option"
  res_late_start :: "timestamp option"
  res_late_finish :: "timestamp option"
  res_total_float :: "int option"
  res_free_float :: "int option"
  res_is_critical :: bool

definition result_of :: "task \<Rightarrow> result_row" where
  "result_of t =
     \<lparr> res_task_id = task_id t,
       res_task_name = name t,
       res_early_start = early_start t,
       res_early_finish = early_finish t,
       res_late_start = late_start t,
       res_late_finish = late_finish t,
       res_total_float = total_float t,
       res_free_float = free_float t,
       res_is_critical = is_critical t \<rparr>"

text \<open>
  The table after the two passes. Each pass runs through \<^verbatim>\<open>executor.submit\<close> inside a
  \<^verbatim>\<open>with\<close> block: the block waits for the pass to end, and an exception raised by the pass
  stays in the future, which nobody reads. So the passes run one after the other and only
  their effect on the table is kept.
\<close>

definition passes :: "nat \<Rightarrow> row list \<Rightarrow> tasks" where
  "passes limit df = fst (backward_pass limit (fst (forward_pass limit (create_task_objects df))))"

text \<open>
  The tasks that the warning log names after the two passes (\<^verbatim>\<open>problematic_tasks\<close>): one
  line with id and name for every task without an early or a late start. The log is the
  only report of the engine besides its return value.
\<close>

definition problematic_tasks :: "nat \<Rightarrow> row list \<Rightarrow> (string \<times> string) list" where
  "problematic_tasks limit df =
     map (\<lambda>t. (task_id t, name t))
       (filter (\<lambda>t. early_start t = None \<or> late_start t = None) (map snd (passes limit df)))"

text \<open>The table and the critical path after \<^verbatim>\<open>calculate_floats_and_critical_path\<close>.\<close>

definition analysed_tasks :: "nat \<Rightarrow> row list \<Rightarrow> exn + (tasks \<times> string list)" where
  "analysed_tasks limit df = calculate_floats_and_critical_path (passes limit df)"

definition perform_critical_path_analysis ::
  "nat \<Rightarrow> row list \<Rightarrow> exn + (result_row list \<times> string list)" where
  "perform_critical_path_analysis limit df =
     (case analysed_tasks limit df of
        Inl e \<Rightarrow> Inl e
      | Inr (tasks, critical_path) \<Rightarrow> Inr (map (result_of \<circ> snd) tasks, critical_path))"

subsection \<open>Notions used to state the properties\<close>

text \<open>The last row of the data frame with the id \<open>k\<close>.\<close>

definition last_row :: "row list \<Rightarrow> string \<Rightarrow> row option" where
  "last_row df k = find (\<lambda>r. row_task_id r = k) (rev df)"

text \<open>
  The ids that the link loop appends to the successors of \<open>p\<close> when it handles the task
  \<open>u\<close>: the id of \<open>u\<close>, once for every occurrence of \<open>p\<close> among the predecessors of \<open>u\<close>.
\<close>

definition links_to :: "string \<Rightarrow> task \<Rightarrow> string list" where
  "links_to p u = map (\<lambda>_. task_id u) (filter (\<lambda>q. q = p) (predecessors u))"

text \<open>
  A task \<open>k\<close> without its references to the ids in \<open>D k\<close>, a table of such tasks, and two
  data frames of which the second is the first without those references: row by row the
  task made from the row is the same, but for the references.
\<close>

definition drop_dangling :: "(string \<Rightarrow> string set) \<Rightarrow> task \<Rightarrow> task" where
  "drop_dangling D t = t\<lparr>predecessors := filter (\<lambda>p. p \<notin> D (task_id t)) (predecessors t)\<rparr>"

definition strip_dangling :: "(string \<Rightarrow> string set) \<Rightarrow> tasks \<Rightarrow> tasks" where
  "strip_dangling D tasks = map (\<lambda>(k, t). (k, drop_dangling D t)) tasks"

definition references_removed :: "(string \<Rightarrow> string set) \<Rightarrow> row list \<Rightarrow> row list \<Rightarrow> bool" where
  "references_removed D df df' =
     list_all2 (\<lambda>r r'. Task_init r' = drop_dangling D (Task_init r)) df df'"

text \<open>
  No task of the table has an id in some \<open>D k\<close>, and no task \<open>k\<close> loses all its references
  with those to \<open>D k\<close>.
\<close>

definition dangling_inv :: "(string \<Rightarrow> string set) \<Rightarrow> tasks \<Rightarrow> bool" where
  "dangling_inv D tasks =
     (fst ` set tasks \<inter> (\<Union>k. D k) = {} \<and>
      (\<forall>(k, t) \<in> set tasks. predecessors t \<noteq> [] \<longrightarrow> filter (\<lambda>p. p \<notin> D (task_id t)) (predecessors t) \<noteq> []))"

subsection \<open>Example schedules\<close>

text \<open>A row that starts at the epoch; \<open>d\<close> is its duration and \<open>p\<close> its predecessor cell.\<close>

definition example_row :: "string \<Rightarrow> timedelta \<Rightarrow> string option \<Rightarrow> row" where
  "example_row i d p =
     \<lparr> row_task_id = i, row_task_name = i, target_start_date = 0, target_end_date = 0,
       planned_duration = d, pred_task_id = p \<rparr>"

text \<open>Two start tasks A (2 days) and B (5 days) and their common successor C (1 day).\<close>

definition merge_rows :: "row list" where
  "merge_rows =
     [example_row ''A'' (2 * ns_per_day) None,
      example_row ''B'' (5 * ns_per_day) None,
      example_row ''C'' ns_per_day (Some ''A, B'')]"

text \<open>The same three records, B before A.\<close>

definition merge_rows_reordered :: "row list" where
  "merge_rows_reordered =
     [example_row ''B'' (5 * ns_per_day) None,
      example_row ''A'' (2 * ns_per_day) None,
      example_row ''C'' ns_per_day (Some ''A, B'')]"

text \<open>P (1 day) and the chain X (1 day), U (5 days) both lead into W (1 day).\<close>

definition late_merge_rows :: "row list" where
  "late_merge_rows =
     [example_row ''P'' ns_per_day None,
      example_row ''X'' ns_per_day None,
      example_row ''U'' (5 * ns_per_day) (Some ''X''),
      example_row ''W'' ns_per_day (Some ''P, U'')]"

text \<open>A (5 days and a half), B (2 days) and their common successor C (1 day).\<close>

definition half_day_rows :: "row list" where
  "half_day_rows =
     [example_row ''A'' (475200000000000) None,
      example_row ''B'' (2 * ns_per_day) None,
      example_row ''C'' ns_per_day (Some ''A, B'')]"

definition half_day_results :: "result_row list" where
  "half_day_results =
     [\<lparr>res_task_id = ''A'', res_task_name = ''A'',
        res_early_start = Some 0, res_early_finish = Some 475200000000000,
        res_late_start = Some 0, res_late_finish = Some 475200000000000,
        res_total_float = Some 0, res_free_float = Some 0, res_is_critical = True\<rparr>,
      \<lparr>res_task_id = ''B'', res_task_name = ''B'',
        res_early_start = Some 0, res_early_finish = Some 172800000000000,
        res_late_start = Some 302400000000000, res_late_finish = Some 475200000000000,
        res_total_float = Some 3, res_free_float = Some 3, res_is_critical = False\<rparr>,
      \<lparr>res_task_id = ''C'', res_task_name = ''C'',
        res_early_start = Some 475200000000000, res_early_finish = Some 561600000000000,
        res_late_start = Some 475200000000000, res_late_finish = Some 561600000000000,
        res_total_float = Some 0, res_free_float = Some 0, res_is_critical = True\<rparr>]"

text \<open>The chain A (2 days), B (3 days), C (1 day), with the records in reverse order.\<close>

definition reversed_chain_rows :: "row list" where
  "reversed_chain_rows =
     [example_row ''C'' ns_per_day (Some ''B''),
      example_row ''B'' (3 * ns_per_day) (Some ''A''),
      example_row ''A'' (2 * ns_per_day) None]"

definition reversed_chain_results :: "result_row list" where
  "reversed_chain_results =
     [\<lparr>res_task_id = ''C'', res_task_name = ''C'',
        res_early_start = Some (5 * ns_per_day), res_early_finish = Some (6 * ns_per_day),
        res_late_start = Some (5 * ns_per_day), res_late_finish = Some (6 * ns_per_day),
        res_total_float = Some 0, res_free_float = Some 0, res_is_critical = True\<rparr>,
      \<lparr>res_task_id = ''B'', res_task_name = ''B'',
        res_early_start = Some (2 * ns_per_day), res_early_finish = Some (5 * ns_per_day),
        res_late_start = Some (2 * ns_per_day), res_late_finish = Some (5 * ns_per_day),
        res_total_float = Some 0, res_free_float = Some 0, res_is_critical = True\<rparr>,
      \<lparr>res_task_id = ''A'', res_task_name = ''A'',
        res_early_start = Some 0, res_early_finish = Some (2 * ns_per_day),
        res_late_start = Some 0, res_late_finish = Some (2 * ns_per_day),
        res_total_float = Some 0, res_free_float = Some 0, res_is_critical = True\<rparr>]"

text \<open>Two records with the id A: 1 day, then 3 days; B follows A.\<close>

definition duplicate_rows :: "row list" where
  "duplicate_rows =
     [example_row ''A'' ns_per_day None,
      example_row ''B'' ns_per_day (Some ''A''),
      example_row ''A'' (3 * ns_per_day) None]"

definition duplicate_results :: "result_row list" where
  "duplicate_results =
     [\<lparr>res_task_id = ''A'', res_task_name = ''A'',
        res_early_start = Some 0, res_early_finish = Some (3 * ns_per_day),
        res_late_start = Some 0, res_late_finish = Some (3 * ns_per_day),
        res_total_float = Some 0, res_free_float = Some 0, res_is_critical = True\<rparr>,
      \<lparr>res_task_id = ''B'', res_task_name = ''B'',
        res_early_start = Some (3 * ns_per_day), res_early_finish = Some (4 * ns_per_day),
        res_late_start = Some (3 * ns_per_day), res_late_finish = Some (4 * ns_per_day),
        res_total_float = Some 0, res_free_float = Some 0, res_is_critical = True\<rparr>]"

text \<open>X refers to Z, and no record has the id Z.\<close>

definition dangling_rows :: "row list" where
  "dangling_rows = [example_row ''X'' ns_per_day (Some ''Z'')]"

text \<open>The same X without the reference.\<close>

definition no_reference_rows :: "row list" where
  "no_reference_rows = [example_row ''X'' ns_per_day None]"

text \<open>X refers to the missing Z, and Y follows X.\<close>

definition dangling_chain_rows :: "row list" where
  "dangling_chain_rows =
     [example_row ''X'' ns_per_day (Some ''Z''),
      example_row ''Y'' ns_per_day (Some ''X'')]"

text \<open>
  Y follows X and also refers to the missing Z; W refers to Z only. Then the same rows
  without the reference of Y to Z, the references so removed, and the result of both.
\<close>

definition mixed_reference_rows :: "row list" where
  "mixed_reference_rows =
     [example_row ''X'' ns_per_day None,
      example_row ''Y'' ns_per_day (Some ''X, Z''),
      example_row ''W'' ns_per_day (Some ''Z'')]"

definition mixed_reference_cleaned_rows :: "row list" where
  "mixed_reference_cleaned_rows =
     [example_row ''X'' ns_per_day None,
      example_row ''Y'' ns_per_day (Some ''X''),
      example_row ''W'' ns_per_day (Some ''Z'')]"

definition reference_of_Y :: "string \<Rightarrow> string set" where
  "reference_of_Y k = (if k = ''Y'' then {''Z''} else {})"

definition mixed_reference_results :: "result_row list" where
  "mixed_reference_results =
     [\<lparr>res_task_id = ''X'', res_task_name = ''X'',
        res_early_start = Some 0, res_early_finish = Some ns_per_day,
        res_late_start = Some 0, res_late_finish = Some ns_per_day,
        res_total_float = Some 0, res_free_float = Some 0, res_is_critical = True\<rparr>,
      \<lparr>res_task_id = ''Y'', res_task_name = ''Y'',
        res_early_start = Some ns_per_day, res_early_finish = Some (2 * ns_per_day),
        res_late_start = Some ns_per_day, res_late_finish = Some (2 * ns_per_day),
        res_total_float = Some 0, res_free_float = Some 0, res_is_critical = True\<rparr>,
      \<lparr>res_task_id = ''W'', res_task_name = ''W'',
        res_early_start = None, res_early_finish = None,
        res_late_start = None, res_late_finish = None,
        res_total_float = None, res_free_float = None, res_is_critical = False\<rparr>]"

text \<open>
  P (5 days) and A (1 day) start the schedule; S1 follows A and P, S2 follows A; S1 and S2
  have no successors.
\<close>

definition two_sink_rows :: "row list" where
  "two_sink_rows =
     [example_row ''P'' (5 * ns_per_day) None,
      example_row ''A'' ns_per_day None,
      example_row ''S1'' ns_per_day (Some ''A, P''),
      example_row ''S2'' ns_per_day (Some ''A'')]"

definition two_sink_results :: "result_row list" where
  "two_sink_results =
     [\<lparr>res_task_id = ''P'', res_task_name = ''P'',
        res_early_start = Some 0, res_early_finish = Some (5 * ns_per_day),
        res_late_start = Some 0, res_late_finish = Some (5 * ns_per_day),
        res_total_float = Some 0, res_free_float = Some 0, res_is_critical = True\<rparr>,
      \<lparr>res_task_id = ''A'', res_task_name = ''A'',
        res_early_start = Some 0, res_early_finish = Some ns_per_day,
        res_late_start = Some (4 * ns_per_day), res_late_finish = Some (5 * ns_per_day),
        res_total_float = Some 4, res_free_float = Some 0, res_is_critical = False\<rparr>,
      \<lparr>res_task_id = ''S1'', res_task_name = ''S1'',
        res_early_start = Some (5 * ns_per_day), res_early_finish = Some (6 * ns_per_day),
        res_late_start = Some (5 * ns_per_day), res_late_finish = Some (6 * ns_per_day),
        res_total_float = Some 0, res_free_float = Some 0, res_is_critical = True\<rparr>,
      \<lparr>res_task_id = ''S2'', res_task_name = ''S2'',
        res_early_start = Some ns_per_day, res_early_finish = Some (2 * ns_per_day),
        res_late_start = Some ns_per_day, res_late_finish = Some (2 * ns_per_day),
        res_total_float = Some 0, res_free_float = Some 0, res_is_critical = True\<rparr>]"

text \<open>The table that the two passes leave for \<open>reversed_chain_rows\<close>.\<close>

definition reversed_chain_tasks :: tasks where
  "reversed_chain_tasks =
     [(''C'', (Task_init (example_row ''C'' ns_per_day (Some ''B'')))
                \<lparr>early_start := Some (5 * ns_per_day), early_finish := Some (6 * ns_per_day),
                 late_start := Some (5 * ns_per_day), late_finish := Some (6 * ns_per_day)\<rparr>),
      (''B'', (Task_init (example_row ''B'' (3 * ns_per_day) (Some ''A'')))
                \<lparr>successors := [''C''],
                 early_start := Some (2 * ns_per_day), early_finish := Some (5 * ns_per_day),
                 late_start := Some (2 * ns_per_day), late_finish := Some (5 * ns_per_day)\<rparr>),
      (''A'', (Task_init (example_row ''A'' (2 * ns_per_day) None))
                \<lparr>successors := [''B''],
                 early_start := Some 0, early_finish := Some (2 * ns_per_day),
                 late_start := Some 0, late_finish := Some (2 * ns_per_day)\<rparr>)]"

text \<open>The cycle A, B, C, A: each task follows the one before it, and A follows C.\<close>

definition cycle_rows :: "row list" where
  "cycle_rows =
     [example_row ''A'' ns_per_day (Some ''C''),
      example_row ''B'' ns_per_day (Some ''A''),
      example_row ''C'' ns_per_day (Some ''B'')]"

text \<open>The start task S leads into the cycle A, B, A.\<close>

definition fed_cycle_rows :: "row list" where
  "fed_cycle_rows =
     [example_row ''S'' ns_per_day None,
      example_row ''A'' ns_per_day (Some ''S, B''),
      example_row ''B'' ns_per_day (Some ''A'')]"

definition fed_cycle_results :: "result_row list" where
  "fed_cycle_results =
     [\<lparr>res_task_id = ''S'', res_task_name = ''S'',
        res_early_start = Some 0, res_early_finish = Some ns_per_day,
        res_late_start = None, res_late_finish = None,
        res_total_float = None, res_free_float = Some 0, res_is_critical = False\<rparr>,
      \<lparr>res_task_id = ''A'', res_task_name = ''A'',
        res_early_start = Some ns_per_day, res_early_finish = Some (2 * ns_per_day),
        res_late_start = None, res_late_finish = None,
        res_total_float = None, res_free_float = Some 0, res_is_critical = False\<rparr>,
      \<lparr>res_task_id = ''B'', res_task_name = ''B'',
        res_early_start = Some (2 * ns_per_day), res_early_finish = Some (3 * ns_per_day),
        res_late_start = None, res_late_finish = Some (3 * ns_per_day),
        res_total_float = None, res_free_float = Some (- 2), res_is_critical = False\<rparr>]"

section \<open>Loops and the table\<close>

lemma map_fst_modify: "map fst (modify k f tasks) = map fst tasks"
  by (induction tasks) (auto simp: modify_def)

lemma map_of_modify:
  "map_of (modify k f tasks) k' = (if k' = k then map_option f (map_of tasks k) else map_of tasks k')"
  by (induction tasks) (auto simp: modify_def)

lemma in_set_modifyD:
  "(k', t') \<in> set (modify k f tasks) \<Longrightarrow>
     (k' = k \<and> (\<exists>t. (k, t) \<in> set tasks \<and> t' = f t)) \<or> (k' \<noteq> k \<and> (k', t') \<in> set tasks)"
  by (auto simp: modify_def split: if_splits)

lemma for_each_inv:
  assumes "I s" and "\<And>x s. x \<in> set xs \<Longrightarrow> I s \<Longrightarrow> I (fst (f x s))"
  shows "I (fst (for_each f xs s))"
  using assms
proof (induction xs arbitrary: s)
  case Nil
  then show ?case by simp
next
  case (Cons x xs)
  obtain s' e where fx: "f x s = (s', e)" by (cases "f x s")
  have "I s'" using Cons.prems(1) Cons.prems(2)[of x s] fx by simp
  show ?case
  proof (cases e)
    case None
    then show ?thesis using fx Cons.IH[OF \<open>I s'\<close>] Cons.prems(2) by simp
  next
    case (Some a)
    then show ?thesis using fx \<open>I s'\<close> by simp
  qed
qed

lemma fwd_process_task_inv:
  assumes step: "\<And>tasks tid t. I tasks \<Longrightarrow> map_of tasks tid = Some t \<Longrightarrow> early_start t = None
                   \<Longrightarrow> I (modify tid (\<lambda>_. fwd_visit tasks t) tasks)"
  shows "I tasks \<Longrightarrow> I (fst (fwd_process_task n tid tasks))"
proof (induction n arbitrary: tid tasks)
  case 0
  then show ?case by simp
next
  case (Suc n)
  show ?case
  proof (cases "map_of tasks tid")
    case None
    then show ?thesis using Suc.prems by simp
  next
    case (Some t)
    show ?thesis
    proof (cases "early_start t")
      case None
      have "I (modify tid (\<lambda>_. fwd_visit tasks t) tasks)"
        using step[OF Suc.prems Some None] .
      then have "I (fst (for_each (\<lambda>succ_id tasks.
                           if has_key tasks succ_id then fwd_process_task n succ_id tasks
                           else (tasks, None))
                 (successors t) (modify tid (\<lambda>_. fwd_visit tasks t) tasks)))"
        by (rule for_each_inv) (simp add: Suc.IH)
      then show ?thesis using Some None by simp
    next
      case (Some a)
      then show ?thesis using \<open>map_of tasks tid = Some t\<close> Suc.prems by simp
    qed
  qed
qed

lemma forward_pass_inv:
  assumes step: "\<And>tasks tid t. I tasks \<Longrightarrow> map_of tasks tid = Some t \<Longrightarrow> early_start t = None
                   \<Longrightarrow> I (modify tid (\<lambda>_. fwd_visit tasks t) tasks)"
  shows "I tasks \<Longrightarrow> I (fst (forward_pass limit tasks))"
proof -
  have proc: "\<And>n tid ts. I ts \<Longrightarrow> I (fst (fwd_process_task n tid ts))"
    by (rule fwd_process_task_inv[where I = I]) (rule step)
  assume "I tasks"
  then show ?thesis
    unfolding forward_pass_def by (rule for_each_inv) (simp add: proc)
qed

lemma bwd_process_task_inv:
  assumes step: "\<And>tasks tid t. I tasks \<Longrightarrow> map_of tasks tid = Some t \<Longrightarrow> late_finish t = None
                   \<Longrightarrow> I (modify tid (\<lambda>_. bwd_visit tasks t) tasks)"
  shows "I tasks \<Longrightarrow> I (fst (bwd_process_task n tid tasks))"
proof (induction n arbitrary: tid tasks)
  case 0
  then show ?case by simp
next
  case (Suc n)
  show ?case
  proof (cases "map_of tasks tid")
    case None
    then show ?thesis using Suc.prems by simp
  next
    case (Some t)
    show ?thesis
    proof (cases "late_finish t")
      case None
      have "I (modify tid (\<lambda>_. bwd_visit tasks t) tasks)"
        using step[OF Suc.prems Some None] .
      then have "I (fst (for_each (\<lambda>pred_id tasks.
                           if has_key tasks pred_id then bwd_process_task n pred_id tasks
                           else (tasks, None))
                 (predecessors t) (modify tid (\<lambda>_. bwd_visit tasks t) tasks)))"
        by (rule for_each_inv) (simp add: Suc.IH)
      then show ?thesis using Some None by simp
    next
      case (Some a)
      then show ?thesis using \<open>map_of tasks tid = Some t\<close> Suc.prems by simp
    qed
  qed
qed

text \<open>
  The backward pass has one step of its own: the late finish it sets on the latest task
  when no task is without successors.
\<close>
lemma backward_pass_inv:
  assumes step: "\<And>tasks tid t. I tasks \<Longrightarrow> map_of tasks tid = Some t \<Longrightarrow> late_finish t = None
                   \<Longrightarrow> I (modify tid (\<lambda>_. bwd_visit tasks t) tasks)"
    and seed: "\<And>latest. filter (\<lambda>t. successors t = []) (map snd tasks) = [] \<Longrightarrow>
                 max_early_finish (map snd tasks) = Inr latest \<Longrightarrow>
                 I (modify (task_id latest) (\<lambda>t. t\<lparr>late_finish := early_finish t\<rparr>) tasks)"
    and init: "I tasks"
  shows "I (fst (backward_pass limit tasks))"
proof (cases "filter (\<lambda>t. successors t = []) (map snd tasks) = []")
  case True
  have proc: "\<And>n tid ts. I ts \<Longrightarrow> I (fst (bwd_process_task n tid ts))"
    by (rule bwd_process_task_inv[where I = I]) (rule step)
  show ?thesis
  proof (cases "max_early_finish (map snd tasks)")
    case (Inl e)
    then show ?thesis using True init by (simp add: backward_pass_def)
  next
    case (Inr latest)
    have "I (fst (for_each (\<lambda>t. bwd_process_task limit (task_id t)) [latest]
               (modify (task_id latest) (\<lambda>t. t\<lparr>late_finish := early_finish t\<rparr>) tasks)))"
      by (rule for_each_inv[where I = I]) (simp_all add: seed[OF True Inr] proc)
    then show ?thesis using True Inr by (simp add: backward_pass_def)
  qed
next
  case False
  have proc: "\<And>n tid ts. I ts \<Longrightarrow> I (fst (bwd_process_task n tid ts))"
    by (rule bwd_process_task_inv[where I = I]) (rule step)
  have "I (fst (for_each (\<lambda>t. bwd_process_task limit (task_id t))
              (filter (\<lambda>t. successors t = []) (map snd tasks)) tasks))"
    by (rule for_each_inv[where I = I]) (simp_all add: init proc)
  then show ?thesis using False by (simp add: backward_pass_def Let_def)
qed

section \<open>Facts about create_task_objects\<close>

text \<open>The predecessor cell \<^verbatim>\<open>'A, B'\<close> splits into the two ids.\<close>

lemma split_comma_space_example: "split_comma_space [] ''A, B'' = [''A'', ''B'']"
  by simp

lemma all_entries_modify:
  assumes "\<forall>(k, t) \<in> set tasks. R k t" and "\<And>t. (k0, t) \<in> set tasks \<Longrightarrow> R k0 t \<Longrightarrow> R k0 (f t)"
  shows "\<forall>(k, t) \<in> set (modify k0 f tasks). R k t"
  using assms by (auto dest!: in_set_modifyD)

subsection \<open>The insert loop\<close>

lemma find_append_cases:
  "find P (xs @ ys) = (case find P xs of None \<Rightarrow> find P ys | Some x \<Rightarrow> Some x)"
  by (induction xs) simp_all

lemma find_SomeD: "find P xs = Some x \<Longrightarrow> P x \<and> x \<in> set xs"
  by (induction xs) (auto split: if_splits)

lemma fold_update_map_of:
  "map_of (fold (\<lambda>r tasks. AList.update (row_task_id r) (Task_init r) tasks) df acc) k =
     (case find (\<lambda>r. row_task_id r = k) (rev df) of
        Some r \<Rightarrow> Some (Task_init r)
      | None \<Rightarrow> map_of acc k)"
proof (induction df arbitrary: acc)
  case Nil
  then show ?case by simp
next
  case (Cons r df)
  show ?case
    by (simp add: Cons.IH find_append_cases update_conv' split: option.splits)
qed

lemma fold_update_keys:
  "fst ` set (fold (\<lambda>r tasks. AList.update (row_task_id r) (Task_init r) tasks) df acc) =
     fst ` set acc \<union> row_task_id ` set df"
  by (induction df arbitrary: acc) (auto simp: dom_update)

lemma fold_update_distinct:
  "distinct (map fst acc) \<Longrightarrow>
   distinct (map fst (fold (\<lambda>r tasks. AList.update (row_task_id r) (Task_init r) tasks) df acc))"
  by (induction df arbitrary: acc) (auto simp: distinct_update)

lemma map_of_insert_rows:
  "map_of (insert_rows df) k = map_option Task_init (last_row df k)"
  by (simp add: insert_rows_def last_row_def fold_update_map_of split: option.splits)

lemma last_row_SomeD: "last_row df k = Some r \<Longrightarrow> row_task_id r = k \<and> r \<in> set df"
  by (auto simp: last_row_def dest: find_SomeD)

lemma distinct_insert_rows: "distinct (map fst (insert_rows df))"
  by (simp add: insert_rows_def fold_update_distinct)

lemma keys_insert_rows: "fst ` set (insert_rows df) = row_task_id ` set df"
  by (simp add: insert_rows_def fold_update_keys)

lemma insert_rows_entry:
  assumes "(k, t) \<in> set (insert_rows df)"
  shows "\<exists>r. last_row df k = Some r \<and> t = Task_init r"
proof -
  have "map_of (insert_rows df) k = Some t"
    using assms distinct_insert_rows by simp
  then show ?thesis by (auto simp: map_of_insert_rows)
qed

lemma task_id_Task_init: "task_id (Task_init r) = row_task_id r"
  by (simp add: Task_init_def)

lemma insert_rows_task_id:
  "(k, t) \<in> set (insert_rows df) \<Longrightarrow> task_id t = k"
  by (auto dest!: insert_rows_entry last_row_SomeD simp: task_id_Task_init)

subsection \<open>The link loop\<close>

lemma map_fst_link_task: "map fst (link_task u tasks) = map fst tasks"
proof -
  have "map fst (fold (\<lambda>pred_id tasks.
             if has_key tasks pred_id then modify pred_id (append_successor (task_id u)) tasks
             else tasks) ps tasks) = map fst tasks" for ps
    by (induction ps arbitrary: tasks) (simp_all add: map_fst_modify)
  then show ?thesis by (simp add: link_task_def)
qed

lemma map_fst_fold_link_task: "map fst (fold link_task us tasks) = map fst tasks"
  by (induction us arbitrary: tasks) (simp_all add: map_fst_link_task)

lemma map_fst_create_task_objects: "map fst (create_task_objects df) = map fst (insert_rows df)"
  by (simp add: create_task_objects_def Let_def map_fst_fold_link_task)

lemma link_task_local:
  assumes "\<And>k t s. R k t \<Longrightarrow> R k (append_successor s t)"
  shows "\<forall>(k, t) \<in> set tasks. R k t \<Longrightarrow> \<forall>(k, t) \<in> set (link_task u tasks). R k t"
proof -
  have "\<forall>(k, t) \<in> set tasks. R k t \<Longrightarrow> \<forall>(k, t) \<in> set (fold (\<lambda>pred_id tasks.
             if has_key tasks pred_id then modify pred_id (append_successor (task_id u)) tasks
             else tasks) ps tasks). R k t" for ps
  proof (induction ps arbitrary: tasks)
    case Nil
    then show ?case by simp
  next
    case (Cons p ps)
    have "\<forall>(k, t) \<in> set (modify p (append_successor (task_id u)) tasks). R k t"
      by (rule all_entries_modify[OF Cons.prems]) (rule assms)
    then show ?case using Cons by simp
  qed
  then show "\<forall>(k, t) \<in> set tasks. R k t \<Longrightarrow> \<forall>(k, t) \<in> set (link_task u tasks). R k t"
    by (simp add: link_task_def)
qed

lemma fold_link_task_local:
  assumes "\<And>k t s. R k t \<Longrightarrow> R k (append_successor s t)"
  shows "\<forall>(k, t) \<in> set tasks. R k t \<Longrightarrow> \<forall>(k, t) \<in> set (fold link_task us tasks). R k t"
proof (induction us arbitrary: tasks)
  case Nil
  then show ?case by simp
next
  case (Cons u us)
  have "\<forall>(k, t) \<in> set (link_task u tasks). R k t"
    using link_task_local[where R = R, OF assms Cons.prems] .
  then show ?case using Cons.IH by simp
qed

lemma create_task_objects_local:
  assumes "\<And>k t s. R k t \<Longrightarrow> R k (append_successor s t)"
    and "\<And>k r. last_row df k = Some r \<Longrightarrow> R k (Task_init r)"
  shows "\<forall>(k, t) \<in> set (create_task_objects df). R k t"
proof -
  have "\<forall>(k, t) \<in> set (insert_rows df). R k t"
    using assms(2) by (auto dest!: insert_rows_entry)
  then have "\<forall>(k, t) \<in> set (fold link_task (map snd (insert_rows df)) (insert_rows df)). R k t"
    using fold_link_task_local[where R = R] assms(1) by blast
  then show ?thesis
    by (simp add: create_task_objects_def Let_def)
qed

lemma map_of_link_task:
  "map_of (link_task u tasks) p =
     map_option (\<lambda>t. t\<lparr>successors := successors t @ links_to p u\<rparr>) (map_of tasks p)"
proof -
  have "map_of (fold (\<lambda>pred_id tasks.
             if has_key tasks pred_id then modify pred_id (append_successor (task_id u)) tasks
             else tasks) ps tasks) p =
     map_option (\<lambda>t. t\<lparr>successors := successors t @ map (\<lambda>_. task_id u) (filter (\<lambda>q. q = p) ps)\<rparr>)
       (map_of tasks p)" for ps
  proof (induction ps arbitrary: tasks)
    case Nil
    then show ?case by (simp add: option.map_ident)
  next
    case (Cons q ps)
    show ?case
    proof (cases "has_key tasks q")
      case True
      then obtain tq where "map_of tasks q = Some tq" by (auto simp: has_key_def)
      then show ?thesis using True
        by (cases "map_of tasks p") (auto simp: Cons.IH map_of_modify append_successor_def)
    next
      case False
      then have "map_of tasks q = None" by (simp add: has_key_def)
      then show ?thesis using False
        by (cases "map_of tasks p") (auto simp: Cons.IH)
    qed
  qed
  then show ?thesis by (simp add: link_task_def links_to_def)
qed

lemma map_of_fold_link_task:
  "map_of (fold link_task us tasks) p =
     map_option (\<lambda>t. t\<lparr>successors := successors t @ concat (map (links_to p) us)\<rparr>) (map_of tasks p)"
proof (induction us arbitrary: tasks)
  case Nil
  then show ?case by (simp add: option.map_ident)
next
  case (Cons u us)
  show ?case
    by (cases "map_of tasks p") (simp_all add: Cons.IH map_of_link_task)
qed

lemma map_of_create_task_objects:
  "map_of (create_task_objects df) p =
     map_option (\<lambda>r. (Task_init r)\<lparr>successors := concat (map (links_to p) (map snd (insert_rows df)))\<rparr>)
       (last_row df p)"
  by (cases "last_row df p")
     (simp_all add: create_task_objects_def Let_def map_of_fold_link_task map_of_insert_rows Task_init_def)

section \<open>Invariants of the passes and of the float loop\<close>

lemma all_entries_modify_const:
  "\<forall>(k, t) \<in> set tasks. R k t \<Longrightarrow> R k0 v \<Longrightarrow> \<forall>(k, t) \<in> set (modify k0 (\<lambda>_. v) tasks). R k t"
  by (auto dest!: in_set_modifyD)

subsection \<open>The forward pass\<close>

lemma forward_pass_local:
  assumes visit: "\<And>k tasks t. R k t \<Longrightarrow> R k (fwd_visit tasks t)"
    and init: "\<forall>(k, t) \<in> set tasks. R k t"
  shows "\<forall>(k, t) \<in> set (fst (forward_pass limit tasks)). R k t"
proof (rule forward_pass_inv[where I = "\<lambda>ts. \<forall>(k, t) \<in> set ts. R k t"])
  fix ts tid t
  assume all: "\<forall>(k, t) \<in> set ts. R k t" and look: "map_of ts tid = Some t"
  have "R tid t" using all map_of_SomeD[OF look] by auto
  then have "R tid (fwd_visit ts t)" by (rule visit)
  with all show "\<forall>(k, t) \<in> set (modify tid (\<lambda>_. fwd_visit ts t) ts). R k t"
    by (rule all_entries_modify_const)
qed (rule init)

lemma map_fst_forward_pass: "map fst (fst (forward_pass limit tasks)) = map fst tasks"
  by (rule forward_pass_inv[where I = "\<lambda>ts. map fst ts = map fst tasks"])
     (simp_all add: map_fst_modify)

subsection \<open>The backward pass\<close>

lemma backward_pass_local:
  assumes visit: "\<And>k tasks t. R k t \<Longrightarrow> R k (bwd_visit tasks t)"
    and seed: "\<And>k t. R k t \<Longrightarrow> R k (t\<lparr>late_finish := early_finish t\<rparr>)"
    and init: "\<forall>(k, t) \<in> set tasks. R k t"
  shows "\<forall>(k, t) \<in> set (fst (backward_pass limit tasks)). R k t"
proof (rule backward_pass_inv[where I = "\<lambda>ts. \<forall>(k, t) \<in> set ts. R k t"])
  fix ts tid t
  assume all: "\<forall>(k, t) \<in> set ts. R k t" and look: "map_of ts tid = Some t"
  have "R tid t" using all map_of_SomeD[OF look] by auto
  then have "R tid (bwd_visit ts t)" by (rule visit)
  with all show "\<forall>(k, t) \<in> set (modify tid (\<lambda>_. bwd_visit ts t) ts). R k t"
    by (rule all_entries_modify_const)
next
  fix latest
  show "\<forall>(k, t) \<in> set (modify (task_id latest) (\<lambda>t. t\<lparr>late_finish := early_finish t\<rparr>) tasks). R k t"
    by (rule all_entries_modify[OF init]) (rule seed)
qed (rule init)

lemma map_fst_backward_pass: "map fst (fst (backward_pass limit tasks)) = map fst tasks"
  by (rule backward_pass_inv[where I = "\<lambda>ts. map fst ts = map fst tasks"])
     (simp_all add: map_fst_modify)

text \<open>A late start is the late finish minus the duration.\<close>

lemma bwd_visit_late:
  assumes "\<forall>ls. late_start t = Some ls \<longrightarrow> late_finish t = Some (ls + duration t)"
    and "late_finish t = None"
  shows "\<forall>ls. late_start (bwd_visit tasks t) = Some ls \<longrightarrow>
           late_finish (bwd_visit tasks t) = Some (ls + duration (bwd_visit tasks t))"
  using assms by (cases "late_start t") (auto simp: bwd_visit_def Let_def split: list.splits option.splits)

lemma backward_pass_late:
  assumes fresh: "\<forall>(k, t) \<in> set tasks. late_start t = None"
  shows "\<forall>(k, t) \<in> set (fst (backward_pass limit tasks)).
           \<forall>ls. late_start t = Some ls \<longrightarrow> late_finish t = Some (ls + duration t)"
proof (rule backward_pass_inv[where I = "\<lambda>ts. \<forall>(k, t) \<in> set ts.
           \<forall>ls. late_start t = Some ls \<longrightarrow> late_finish t = Some (ls + duration t)"])
  fix ts :: tasks and tid t
  assume all: "\<forall>(k, t) \<in> set ts. \<forall>ls. late_start t = Some ls \<longrightarrow> late_finish t = Some (ls + duration t)"
    and look: "map_of ts tid = Some t" and lf: "late_finish t = None"
  have "\<forall>ls. late_start t = Some ls \<longrightarrow> late_finish t = Some (ls + duration t)"
    using all map_of_SomeD[OF look] by auto
  then have "\<forall>ls. late_start (bwd_visit ts t) = Some ls \<longrightarrow>
           late_finish (bwd_visit ts t) = Some (ls + duration (bwd_visit ts t))"
    using lf by (rule bwd_visit_late)
  with all show "\<forall>(k, t) \<in> set (modify tid (\<lambda>_. bwd_visit ts t) ts).
      \<forall>ls. late_start t = Some ls \<longrightarrow> late_finish t = Some (ls + duration t)"
    by (rule all_entries_modify_const)
next
  fix latest
  show "\<forall>(k, t) \<in> set (modify (task_id latest) (\<lambda>t. t\<lparr>late_finish := early_finish t\<rparr>) tasks).
      \<forall>ls. late_start t = Some ls \<longrightarrow> late_finish t = Some (ls + duration t)"
    using fresh by (auto dest!: in_set_modifyD)
next
  show "\<forall>(k, t) \<in> set tasks. \<forall>ls. late_start t = Some ls \<longrightarrow> late_finish t = Some (ls + duration t)"
    using fresh by auto
qed

subsection \<open>The float loop\<close>

lemma floats_loop_inv:
  assumes "floats_loop ks tasks cp = Inr (tasks', cp')"
    and step: "\<And>tid ts t c t1 c1 t2. I ts \<Longrightarrow> map_of ts tid = Some t \<Longrightarrow>
                 set_total_float t c = (t1, c1) \<Longrightarrow> set_free_float ts t1 = Inr t2 \<Longrightarrow>
                 I (modify tid (\<lambda>_. t2) ts)"
    and "I tasks"
  shows "I tasks'"
  using assms(1,3)
proof (induction ks arbitrary: tasks cp)
  case Nil
  then show ?case by simp
next
  case (Cons k ks)
  show ?case
  proof (cases "map_of tasks k")
    case None
    then show ?thesis using Cons by simp
  next
    case (Some t)
    obtain t1 c1 where tf: "set_total_float t cp = (t1, c1)" by (cases "set_total_float t cp")
    show ?thesis
    proof (cases "set_free_float tasks t1")
      case (Inl e)
      then show ?thesis using Cons.prems Some tf by simp
    next
      case (Inr t2)
      have "I (modify k (\<lambda>_. t2) tasks)" using step[OF Cons.prems(2) Some tf Inr] .
      moreover have "floats_loop ks (modify k (\<lambda>_. t2) tasks) c1 = Inr (tasks', cp')"
        using Cons.prems(1) Some tf Inr by simp
      ultimately show ?thesis by (rule Cons.IH[rotated])
    qed
  qed
qed

lemma set_free_float_fields:
  assumes "set_free_float tasks t1 = Inr t2"
  shows "t2 = t1\<lparr>free_float := free_float t2\<rparr>"
  using assms by (auto simp: set_free_float_def split: if_splits sum.splits list.splits)

lemma set_total_float_fields:
  assumes "set_total_float t c = (t1, c1)"
  shows "t1 = t\<lparr>total_float := total_float t1, is_critical := is_critical t1\<rparr>"
  using assms by (auto simp: set_total_float_def Let_def split: option.splits)

lemma floats_loop_local:
  assumes run: "floats_loop ks tasks cp = Inr (tasks', cp')"
    and step: "\<And>k t tf ic ff. R k t \<Longrightarrow> R k (t\<lparr>total_float := tf, is_critical := ic, free_float := ff\<rparr>)"
    and init: "\<forall>(k, t) \<in> set tasks. R k t"
  shows "\<forall>(k, t) \<in> set tasks'. R k t"
proof (rule floats_loop_inv[where I = "\<lambda>ts. \<forall>(k, t) \<in> set ts. R k t", OF run])
  fix tid ts t c t1 c1 t2
  assume all: "\<forall>(k, t) \<in> set ts. R k t" and look: "map_of ts tid = Some t"
    and tf: "set_total_float t c = (t1, c1)" and ff: "set_free_float ts t1 = Inr t2"
  have "R tid t" using all map_of_SomeD[OF look] by auto
  then have "R tid (t\<lparr>total_float := total_float t1, is_critical := is_critical t1, free_float := free_float t2\<rparr>)"
    by (rule step)
  moreover have "t2 = t\<lparr>total_float := total_float t1, is_critical := is_critical t1, free_float := free_float t2\<rparr>"
    using set_free_float_fields[OF ff] set_total_float_fields[OF tf] by simp
  ultimately have "R tid t2" by simp
  with all show "\<forall>(k, t) \<in> set (modify tid (\<lambda>_. t2) ts). R k t"
    by (rule all_entries_modify_const)
qed (rule init)

lemma map_fst_floats_loop:
  assumes "floats_loop ks tasks cp = Inr (tasks', cp')"
  shows "map fst tasks' = map fst tasks"
  by (rule floats_loop_inv[where I = "\<lambda>ts. map fst ts = map fst tasks", OF assms])
     (simp_all add: map_fst_modify)

subsection \<open>What a visit changes\<close>

lemma fwd_visit_fields:
  "fwd_visit tasks t = t\<lparr>early_start := early_start (fwd_visit tasks t),
                          early_finish := early_finish (fwd_visit tasks t)\<rparr>"
  by (simp add: fwd_visit_def Let_def split: list.splits option.splits)

lemma bwd_visit_fields:
  "bwd_visit tasks t = t\<lparr>late_start := late_start (bwd_visit tasks t),
                          late_finish := late_finish (bwd_visit tasks t)\<rparr>"
  by (simp add: bwd_visit_def Let_def split: list.splits option.splits)

lemma fwd_visit_early:
  assumes "early_finish t = map_option (\<lambda>s. s + duration t) (early_start t)"
  shows "early_finish (fwd_visit tasks t) =
           map_option (\<lambda>s. s + duration (fwd_visit tasks t)) (early_start (fwd_visit tasks t))"
  using assms by (simp add: fwd_visit_def Let_def split: list.splits option.splits)

subsection \<open>The table after the two passes\<close>

lemma passes_local:
  assumes init: "\<And>k r. last_row df k = Some r \<Longrightarrow> R k (Task_init r)"
    and link: "\<And>k t s. R k t \<Longrightarrow> R k (append_successor s t)"
    and fwd: "\<And>k tasks t. R k t \<Longrightarrow> R k (fwd_visit tasks t)"
    and bwd: "\<And>k tasks t. R k t \<Longrightarrow> R k (bwd_visit tasks t)"
    and seed: "\<And>k t. R k t \<Longrightarrow> R k (t\<lparr>late_finish := early_finish t\<rparr>)"
  shows "\<forall>(k, t) \<in> set (passes limit df). R k t"
proof -
  have "\<forall>(k, t) \<in> set (create_task_objects df). R k t"
    by (rule create_task_objects_local[where R = R]) (simp_all add: link init)
  then have "\<forall>(k, t) \<in> set (fst (forward_pass limit (create_task_objects df))). R k t"
    by (rule forward_pass_local[where R = R, rotated]) (rule fwd)
  then show ?thesis
    unfolding passes_def
    by (rule backward_pass_local[where R = R, rotated 2]) (simp_all add: bwd seed)
qed

lemma map_fst_passes: "map fst (passes limit df) = map fst (insert_rows df)"
  by (simp add: passes_def map_fst_backward_pass map_fst_forward_pass map_fst_create_task_objects)

lemma distinct_passes: "distinct (map fst (passes limit df))"
  by (simp add: map_fst_passes distinct_insert_rows)

lemma passes_task_id: "\<forall>(k, t) \<in> set (passes limit df). task_id t = k"
proof (rule passes_local[where R = "\<lambda>k t. task_id t = k"])
  fix k tasks and t :: task
  assume "task_id t = k"
  then show "task_id (fwd_visit tasks t) = k" by (subst fwd_visit_fields) simp
  show "task_id (bwd_visit tasks t) = k" using \<open>task_id t = k\<close> by (subst bwd_visit_fields) simp
qed (auto simp: task_id_Task_init append_successor_def dest: last_row_SomeD)

lemma passes_early:
  "\<forall>(k, t) \<in> set (passes limit df). early_finish t = map_option (\<lambda>s. s + duration t) (early_start t)"
proof (rule passes_local[where R = "\<lambda>k t. early_finish t = map_option (\<lambda>s. s + duration t) (early_start t)"])
  fix k :: string and tasks and t :: task
  assume *: "early_finish t = map_option (\<lambda>s. s + duration t) (early_start t)"
  then show "early_finish (fwd_visit tasks t) =
           map_option (\<lambda>s. s + duration (fwd_visit tasks t)) (early_start (fwd_visit tasks t))"
    by (rule fwd_visit_early)
  show "early_finish (bwd_visit tasks t) =
           map_option (\<lambda>s. s + duration (bwd_visit tasks t)) (early_start (bwd_visit tasks t))"
    using * by (subst (1 2 3) bwd_visit_fields) simp
qed (simp_all add: Task_init_def append_successor_def)

lemma passes_no_floats:
  "\<forall>(k, t) \<in> set (passes limit df). total_float t = None \<and> \<not> is_critical t"
proof (rule passes_local[where R = "\<lambda>k t. total_float t = None \<and> \<not> is_critical t"])
  fix k :: string and tasks and t :: task
  assume *: "total_float t = None \<and> \<not> is_critical t"
  then show "total_float (fwd_visit tasks t) = None \<and> \<not> is_critical (fwd_visit tasks t)"
    by (subst (1 2) fwd_visit_fields) simp
  show "total_float (bwd_visit tasks t) = None \<and> \<not> is_critical (bwd_visit tasks t)"
    using * by (subst (1 2) bwd_visit_fields) simp
qed (simp_all add: Task_init_def append_successor_def)

lemma forward_pass_no_late:
  "\<forall>(k, t) \<in> set (fst (forward_pass limit (create_task_objects df))).
      late_start t = None \<and> late_finish t = None"
proof (rule forward_pass_local[where R = "\<lambda>k t. late_start t = None \<and> late_finish t = None"])
  fix k :: string and tasks and t :: task
  assume *: "late_start t = None \<and> late_finish t = None"
  then show "late_start (fwd_visit tasks t) = None \<and> late_finish (fwd_visit tasks t) = None"
    by (subst (1 2) fwd_visit_fields) simp
next
  show "\<forall>(k, t) \<in> set (create_task_objects df). late_start t = None \<and> late_finish t = None"
    by (rule create_task_objects_local[where R = "\<lambda>k t. late_start t = None \<and> late_finish t = None"])
       (simp_all add: Task_init_def append_successor_def)
qed

lemma passes_late:
  "\<forall>(k, t) \<in> set (passes limit df).
      \<forall>ls. late_start t = Some ls \<longrightarrow> late_finish t = Some (ls + duration t)"
  unfolding passes_def
  by (rule backward_pass_late) (use forward_pass_no_late[of limit df] in auto)

lemma set_total_float_cases:
  assumes "set_total_float t c = (t1, c1)"
  shows "(\<exists>es ls. early_start t = Some es \<and> late_start t = Some ls \<and>
            t1 = t\<lparr>total_float := Some (days (ls - es)), is_critical := (days (ls - es) = 0)\<rparr> \<and>
            c1 = (if days (ls - es) = 0 then c @ [task_id t] else c)) \<or>
         ((early_start t = None \<or> late_start t = None) \<and> t1 = t \<and> c1 = c)"
  using assms by (auto simp: set_total_float_def Let_def split: option.splits)

lemma set_free_float_other:
  assumes "set_free_float tasks t1 = Inr t2"
  shows "total_float t2 = total_float t1 \<and> is_critical t2 = is_critical t1 \<and>
    early_start t2 = early_start t1 \<and> late_start t2 = late_start t1 \<and> task_id t2 = task_id t1"
  using assms by (auto simp: set_free_float_def split: if_splits sum.splits list.splits)

text \<open>The flag \<open>is_critical\<close> follows the total float.\<close>

lemma floats_loop_critical:
  assumes run: "floats_loop ks tasks cp = Inr (tasks', cp')"
    and init: "\<forall>(k, t) \<in> set tasks. is_critical t = (total_float t = Some 0)"
  shows "\<forall>(k, t) \<in> set tasks'. is_critical t = (total_float t = Some 0)"
proof (rule floats_loop_inv[where I = "\<lambda>ts. \<forall>(k, t) \<in> set ts. is_critical t = (total_float t = Some 0)", OF run])
  fix tid c t1 c1 t2 and ts :: tasks and t :: task
  assume all: "\<forall>(k, t) \<in> set ts. is_critical t = (total_float t = Some 0)"
    and look: "map_of ts tid = Some t"
    and tf: "set_total_float t c = (t1, c1)" and ff: "set_free_float ts t1 = Inr t2"
  have "is_critical t = (total_float t = Some 0)" using all map_of_SomeD[OF look] by auto
  then have "is_critical t1 = (total_float t1 = Some 0)"
    using set_total_float_cases[OF tf] by auto
  then have "is_critical t2 = (total_float t2 = Some 0)"
    using set_free_float_other[OF ff] by simp
  with all show "\<forall>(k, t) \<in> set (modify tid (\<lambda>_. t2) ts). is_critical t = (total_float t = Some 0)"
    by (rule all_entries_modify_const)
qed (rule init)

text \<open>Every task with both start dates gets its total float.\<close>

lemma floats_loop_total_float:
  assumes "floats_loop ks tasks cp = Inr (tasks', cp')"
    and "\<forall>(k, t) \<in> set tasks. k \<notin> set ks \<longrightarrow>
           (\<forall>es ls. early_start t = Some es \<longrightarrow> late_start t = Some ls \<longrightarrow>
              total_float t = Some (days (ls - es)))"
  shows "\<forall>(k, t) \<in> set tasks'.
           (\<forall>es ls. early_start t = Some es \<longrightarrow> late_start t = Some ls \<longrightarrow>
              total_float t = Some (days (ls - es)))"
  using assms
proof (induction ks arbitrary: tasks cp)
  case Nil
  then show ?case by simp
next
  case (Cons k ks)
  show ?case
  proof (cases "map_of tasks k")
    case None
    then have "k \<notin> fst ` set tasks" by (simp add: map_of_eq_None_iff)
    then have "\<forall>(k', t) \<in> set tasks. k' \<notin> set ks \<longrightarrow>
           (\<forall>es ls. early_start t = Some es \<longrightarrow> late_start t = Some ls \<longrightarrow>
              total_float t = Some (days (ls - es)))"
      using Cons.prems(2) by force
    moreover have "floats_loop ks tasks cp = Inr (tasks', cp')" using Cons.prems(1) None by simp
    ultimately show ?thesis by (rule Cons.IH[rotated])
  next
    case (Some t)
    obtain t1 c1 where tf: "set_total_float t cp = (t1, c1)" by (cases "set_total_float t cp")
    show ?thesis
    proof (cases "set_free_float tasks t1")
      case (Inl e)
      then show ?thesis using Cons.prems Some tf by simp
    next
      case (Inr t2)
      have t1: "\<forall>es ls. early_start t1 = Some es \<longrightarrow> late_start t1 = Some ls \<longrightarrow>
              total_float t1 = Some (days (ls - es))"
        using set_total_float_cases[OF tf] by auto
      have t2: "\<forall>es ls. early_start t2 = Some es \<longrightarrow> late_start t2 = Some ls \<longrightarrow>
              total_float t2 = Some (days (ls - es))"
        using t1 set_free_float_other[OF Inr] by simp
      have "\<forall>(k', t) \<in> set (modify k (\<lambda>_. t2) tasks). k' \<notin> set ks \<longrightarrow>
           (\<forall>es ls. early_start t = Some es \<longrightarrow> late_start t = Some ls \<longrightarrow>
              total_float t = Some (days (ls - es)))"
        using Cons.prems(2) t2 by (auto dest!: in_set_modifyD)
      moreover have "floats_loop ks (modify k (\<lambda>_. t2) tasks) c1 = Inr (tasks', cp')"
        using Cons.prems(1) Some tf Inr by simp
      ultimately show ?thesis by (rule Cons.IH[rotated])
    qed
  qed
qed

text \<open>The list \<^verbatim>\<open>critical_path\<close>.\<close>

lemma floats_loop_untouched:
  assumes "floats_loop ks tasks cp = Inr (tasks', cp')" and "k \<notin> set ks"
  shows "map_of tasks' k = map_of tasks k"
  using assms
proof (induction ks arbitrary: tasks cp)
  case Nil
  then show ?case by simp
next
  case (Cons tid ks)
  show ?case
  proof (cases "map_of tasks tid")
    case None
    then show ?thesis using Cons by simp
  next
    case (Some t)
    obtain t1 c1 where tf: "set_total_float t cp = (t1, c1)" by (cases "set_total_float t cp")
    show ?thesis
    proof (cases "set_free_float tasks t1")
      case (Inl e)
      then show ?thesis using Cons.prems Some tf by simp
    next
      case (Inr t2)
      have "floats_loop ks (modify tid (\<lambda>_. t2) tasks) c1 = Inr (tasks', cp')"
        using Cons.prems(1) Some tf Inr by simp
      then have "map_of tasks' k = map_of (modify tid (\<lambda>_. t2) tasks) k"
        using Cons.prems(2) by (intro Cons.IH) simp_all
      then show ?thesis using Cons.prems(2) by (simp add: map_of_modify)
    qed
  qed
qed

lemma floats_loop_critical_path:
  assumes "floats_loop ks tasks cp = Inr (tasks', cp')"
    and "distinct ks"
    and "\<forall>(k, t) \<in> set tasks. task_id t = k"
    and "\<forall>(k, t) \<in> set tasks. k \<in> set ks \<longrightarrow> \<not> is_critical t"
  shows "cp' = cp @ filter (\<lambda>k. \<exists>t. map_of tasks' k = Some t \<and> is_critical t) ks"
  using assms
proof (induction ks arbitrary: tasks cp)
  case Nil
  then show ?case by simp
next
  case (Cons tid ks)
  have notin: "tid \<notin> set ks" using Cons.prems(2) by simp
  show ?case
  proof (cases "map_of tasks tid")
    case None
    have run: "floats_loop ks tasks cp = Inr (tasks', cp')" using Cons.prems(1) None by simp
    have "map_of tasks' tid = None"
      using floats_loop_untouched[OF run notin] None by simp
    moreover have "cp' = cp @ filter (\<lambda>k. \<exists>t. map_of tasks' k = Some t \<and> is_critical t) ks"
      using run Cons.prems(2,3,4) by (intro Cons.IH) auto
    ultimately show ?thesis by simp
  next
    case (Some t)
    have tin: "(tid, t) \<in> set tasks" using map_of_SomeD[OF Some] .
    have tid: "task_id t = tid" using Cons.prems(3) tin by auto
    have ncrit: "\<not> is_critical t" using Cons.prems(4) tin by auto
    obtain t1 c1 where tf: "set_total_float t cp = (t1, c1)" by (cases "set_total_float t cp")
    show ?thesis
    proof (cases "set_free_float tasks t1")
      case (Inl e)
      then show ?thesis using Cons.prems Some tf by simp
    next
      case (Inr t2)
      have run: "floats_loop ks (modify tid (\<lambda>_. t2) tasks) c1 = Inr (tasks', cp')"
        using Cons.prems(1) Some tf Inr by simp
      have c1: "c1 = cp @ (if is_critical t1 then [tid] else [])" and id1: "task_id t1 = tid"
        using set_total_float_cases[OF tf] tid ncrit by auto
      have id2: "task_id t2 = tid" and crit2: "is_critical t2 = is_critical t1"
        using set_free_float_other[OF Inr] id1 by simp_all
      have "map_of tasks' tid = map_of (modify tid (\<lambda>_. t2) tasks) tid"
        using floats_loop_untouched[OF run notin] .
      then have at_tid: "map_of tasks' tid = Some t2"
        using Some by (simp add: map_of_modify)
      have wf: "\<forall>(k, t) \<in> set (modify tid (\<lambda>_. t2) tasks). task_id t = k"
        using Cons.prems(3) id2 by (rule all_entries_modify_const)
      have nc: "\<forall>(k, t) \<in> set (modify tid (\<lambda>_. t2) tasks). k \<in> set ks \<longrightarrow> \<not> is_critical t"
        using Cons.prems(4) notin by (auto dest!: in_set_modifyD)
      have "cp' = c1 @ filter (\<lambda>k. \<exists>t. map_of tasks' k = Some t \<and> is_critical t) ks"
        using run Cons.prems(2) wf nc by (intro Cons.IH) simp_all
      then show ?thesis using c1 at_tid crit2 by simp
    qed
  qed
qed

lemma filter_keys_by_value:
  assumes "distinct (map fst xs)"
  shows "filter (\<lambda>k. \<exists>v. map_of xs k = Some v \<and> P v) (map fst xs) = map fst (filter (P \<circ> snd) xs)"
proof -
  have "filter (\<lambda>k. \<exists>v. map_of xs k = Some v \<and> P v) (map fst xs)
          = map fst (filter ((\<lambda>k. \<exists>v. map_of xs k = Some v \<and> P v) \<circ> fst) xs)"
    by (simp add: filter_map)
  also have "filter ((\<lambda>k. \<exists>v. map_of xs k = Some v \<and> P v) \<circ> fst) xs = filter (P \<circ> snd) xs"
    using assms by (intro filter_cong) (auto dest: eq_key_imp_eq_value)
  finally show ?thesis .
qed

lemma calculate_critical_path:
  assumes "calculate_floats_and_critical_path tasks = Inr (tasks', cp)"
    and "distinct (map fst tasks)"
    and "\<forall>(k, t) \<in> set tasks. task_id t = k"
    and "\<forall>(k, t) \<in> set tasks. \<not> is_critical t"
  shows "cp = map fst (filter (is_critical \<circ> snd) tasks')"
proof -
  have run: "floats_loop (map fst tasks) tasks [] = Inr (tasks', cp)"
    using assms(1) by (simp add: calculate_floats_and_critical_path_def)
  have keys: "map fst tasks' = map fst tasks" using map_fst_floats_loop[OF run] .
  have "cp = [] @ filter (\<lambda>k. \<exists>t. map_of tasks' k = Some t \<and> is_critical t) (map fst tasks)"
    using run assms(2,3,4) by (intro floats_loop_critical_path) auto
  then have "cp = filter (\<lambda>k. \<exists>t. map_of tasks' k = Some t \<and> is_critical t) (map fst tasks')"
    using keys by simp
  then show ?thesis using filter_keys_by_value[of tasks' is_critical] assms(2) keys by simp
qed

section \<open>The forward pass and the order of the records\<close>

text \<open>
  C1. Claimed: after the forward pass on an acyclic schedule, a task with predecessors
  starts at the greatest early finish of all its predecessors. On \<open>merge_rows\<close> the pass
  ends without an exception, C has the predecessors A and B, B finishes on day 5, and C
  starts on day 2: C was reached through A and finalised before B was processed.
\<close>

theorem forward_pass_ignores_unfinished_predecessor:
  "snd (forward_pass 1000 (create_task_objects merge_rows)) = None \<and>
   map_option (\<lambda>t. (predecessors t, early_start t, early_finish t))
     (map_of (fst (forward_pass 1000 (create_task_objects merge_rows))) ''C'')
     = Some ([''A'', ''B''], Some (2 * ns_per_day), Some (3 * ns_per_day)) \<and>
   map_option early_finish
     (map_of (fst (forward_pass 1000 (create_task_objects merge_rows))) ''A'')
     = Some (Some (2 * ns_per_day)) \<and>
   map_option early_finish
     (map_of (fst (forward_pass 1000 (create_task_objects merge_rows))) ''B'')
     = Some (Some (5 * ns_per_day))"
  by code_simp

text \<open>
  C3. Claimed: the same records in another order give the same output. The engine run on
  \<open>merge_rows\<close> and on \<open>merge_rows_reordered\<close> (B before A) gives C the early start day 2
  in the first run and day 5 in the second, makes A critical in the first and B in the
  second, and returns different critical paths.
\<close>

theorem record_order_changes_output:
  "perform_critical_path_analysis 1000 merge_rows =
     Inr ([\<lparr>res_task_id = ''A'', res_task_name = ''A'',
             res_early_start = Some 0, res_early_finish = Some (2 * ns_per_day),
             res_late_start = Some 0, res_late_finish = Some (2 * ns_per_day),
             res_total_float = Some 0, res_free_float = Some 0, res_is_critical = True\<rparr>,
           \<lparr>res_task_id = ''B'', res_task_name = ''B'',
             res_early_start = Some 0, res_early_finish = Some (5 * ns_per_day),
             res_late_start = Some (- 3 * ns_per_day), res_late_finish = Some (2 * ns_per_day),
             res_total_float = Some (- 3), res_free_float = Some (- 3), res_is_critical = False\<rparr>,
           \<lparr>res_task_id = ''C'', res_task_name = ''C'',
             res_early_start = Some (2 * ns_per_day), res_early_finish = Some (3 * ns_per_day),
             res_late_start = Some (2 * ns_per_day), res_late_finish = Some (3 * ns_per_day),
             res_total_float = Some 0, res_free_float = Some 0, res_is_critical = True\<rparr>],
          [''A'', ''C'']) \<and>
   perform_critical_path_analysis 1000 merge_rows_reordered =
     Inr ([\<lparr>res_task_id = ''B'', res_task_name = ''B'',
             res_early_start = Some 0, res_early_finish = Some (5 * ns_per_day),
             res_late_start = Some 0, res_late_finish = Some (5 * ns_per_day),
             res_total_float = Some 0, res_free_float = Some 0, res_is_critical = True\<rparr>,
           \<lparr>res_task_id = ''A'', res_task_name = ''A'',
             res_early_start = Some 0, res_early_finish = Some (2 * ns_per_day),
             res_late_start = Some (3 * ns_per_day), res_late_finish = Some (5 * ns_per_day),
             res_total_float = Some 3, res_free_float = Some 3, res_is_critical = False\<rparr>,
           \<lparr>res_task_id = ''C'', res_task_name = ''C'',
             res_early_start = Some (5 * ns_per_day), res_early_finish = Some (6 * ns_per_day),
             res_late_start = Some (5 * ns_per_day), res_late_finish = Some (6 * ns_per_day),
             res_total_float = Some 0, res_free_float = Some 0, res_is_critical = True\<rparr>],
          [''B'', ''C''])"
  by code_simp

text \<open>
  C9. Claimed: free float never exceeds total float. On \<open>late_merge_rows\<close> the run
  succeeds and X, which has the successor U, gets the total float -5 and the free float 0.
  W was reached through P and finalised with the early start day 1, before U (early
  finish day 6) was processed; the backward pass carries that date back to U and X.
\<close>

theorem free_float_exceeds_total_float:
  "perform_critical_path_analysis 1000 late_merge_rows =
     Inr ([\<lparr>res_task_id = ''P'', res_task_name = ''P'',
             res_early_start = Some 0, res_early_finish = Some ns_per_day,
             res_late_start = Some 0, res_late_finish = Some ns_per_day,
             res_total_float = Some 0, res_free_float = Some 0, res_is_critical = True\<rparr>,
           \<lparr>res_task_id = ''X'', res_task_name = ''X'',
             res_early_start = Some 0, res_early_finish = Some ns_per_day,
             res_late_start = Some (- 5 * ns_per_day), res_late_finish = Some (- 4 * ns_per_day),
             res_total_float = Some (- 5), res_free_float = Some 0, res_is_critical = False\<rparr>,
           \<lparr>res_task_id = ''U'', res_task_name = ''U'',
             res_early_start = Some ns_per_day, res_early_finish = Some (6 * ns_per_day),
             res_late_start = Some (- 4 * ns_per_day), res_late_finish = Some ns_per_day,
             res_total_float = Some (- 5), res_free_float = Some (- 5), res_is_critical = False\<rparr>,
           \<lparr>res_task_id = ''W'', res_task_name = ''W'',
             res_early_start = Some ns_per_day, res_early_finish = Some (2 * ns_per_day),
             res_late_start = Some ns_per_day, res_late_finish = Some (2 * ns_per_day),
             res_total_float = Some 0, res_free_float = Some 0, res_is_critical = True\<rparr>],
          [''P'', ''W''])"
  by code_simp

section \<open>Dates, floats and the critical path of a run\<close>

lemma passes_duration:
  "\<forall>(k, t) \<in> set (passes limit df). map_option planned_duration (last_row df k) = Some (duration t)"
proof (rule passes_local[where R = "\<lambda>k t. map_option planned_duration (last_row df k) = Some (duration t)"])
  fix k :: string and tasks and t :: task
  assume *: "map_option planned_duration (last_row df k) = Some (duration t)"
  then show "map_option planned_duration (last_row df k) = Some (duration (fwd_visit tasks t))"
    by (subst fwd_visit_fields) simp
  show "map_option planned_duration (last_row df k) = Some (duration (bwd_visit tasks t))"
    using * by (subst bwd_visit_fields) simp
qed (simp_all add: Task_init_def append_successor_def)

text \<open>What holds for every entry of the final table.\<close>

lemma analysed_tasks_entry:
  assumes run: "analysed_tasks limit df = Inr (tasks, cp)" and entry: "(k, t) \<in> set tasks"
  shows "task_id t = k"
    and "is_critical t = (total_float t = Some 0)"
    and "early_finish t = map_option (\<lambda>s. s + duration t) (early_start t)"
    and "\<forall>ls. late_start t = Some ls \<longrightarrow> late_finish t = Some (ls + duration t)"
    and "\<forall>es ls. early_start t = Some es \<longrightarrow> late_start t = Some ls \<longrightarrow>
              total_float t = Some (days (ls - es))"
    and "map_option planned_duration (last_row df k) = Some (duration t)"
proof -
  have loop: "floats_loop (map fst (passes limit df)) (passes limit df) [] = Inr (tasks, cp)"
    using run by (simp add: analysed_tasks_def calculate_floats_and_critical_path_def)
  have "\<forall>(k, t) \<in> set tasks. task_id t = k"
    by (rule floats_loop_local[where R = "\<lambda>k t. task_id t = k", OF loop])
       (simp_all add: passes_task_id)
  then show "task_id t = k" using entry by auto
  have "\<forall>(k, t) \<in> set tasks. is_critical t = (total_float t = Some 0)"
    by (rule floats_loop_critical[OF loop]) (use passes_no_floats[of limit df] in auto)
  then show "is_critical t = (total_float t = Some 0)" using entry by auto
  have "\<forall>(k, t) \<in> set tasks. early_finish t = map_option (\<lambda>s. s + duration t) (early_start t)"
    by (rule floats_loop_local[where R = "\<lambda>k t. early_finish t = map_option (\<lambda>s. s + duration t) (early_start t)", OF loop])
       (simp_all add: passes_early)
  then show "early_finish t = map_option (\<lambda>s. s + duration t) (early_start t)" using entry by auto
  have "\<forall>(k, t) \<in> set tasks. \<forall>ls. late_start t = Some ls \<longrightarrow> late_finish t = Some (ls + duration t)"
    by (rule floats_loop_local[where R = "\<lambda>k t. \<forall>ls. late_start t = Some ls \<longrightarrow> late_finish t = Some (ls + duration t)", OF loop])
       (simp_all add: passes_late)
  then show "\<forall>ls. late_start t = Some ls \<longrightarrow> late_finish t = Some (ls + duration t)"
    using entry by auto
  have "\<forall>(k, t) \<in> set tasks. \<forall>es ls. early_start t = Some es \<longrightarrow> late_start t = Some ls \<longrightarrow>
              total_float t = Some (days (ls - es))"
    by (rule floats_loop_total_float[OF loop]) force
  then show "\<forall>es ls. early_start t = Some es \<longrightarrow> late_start t = Some ls \<longrightarrow>
              total_float t = Some (days (ls - es))"
    using entry by auto
  have "\<forall>(k, t) \<in> set tasks. map_option planned_duration (last_row df k) = Some (duration t)"
    by (rule floats_loop_local[where R = "\<lambda>k t. map_option planned_duration (last_row df k) = Some (duration t)", OF loop])
       (simp, rule passes_duration)
  then show "map_option planned_duration (last_row df k) = Some (duration t)" using entry by auto
qed

lemma analysed_tasks_critical_path:
  assumes "analysed_tasks limit df = Inr (tasks, cp)"
  shows "cp = map fst (filter (is_critical \<circ> snd) tasks)"
proof (rule calculate_critical_path)
  show "calculate_floats_and_critical_path (passes limit df) = Inr (tasks, cp)"
    using assms by (simp add: analysed_tasks_def)
  show "distinct (map fst (passes limit df))" by (rule distinct_passes)
  show "\<forall>(k, t) \<in> set (passes limit df). task_id t = k" by (rule passes_task_id)
  show "\<forall>(k, t) \<in> set (passes limit df). \<not> is_critical t"
    using passes_no_floats[of limit df] by auto
qed

lemma perform_results:
  assumes "perform_critical_path_analysis limit df = Inr (results, cp)"
  shows "\<exists>tasks. analysed_tasks limit df = Inr (tasks, cp) \<and> results = map (result_of \<circ> snd) tasks"
  using assms by (auto simp: perform_critical_path_analysis_def split: sum.splits)

text \<open>
  C8. After a successful run, for every task of the result table, \<open>is_critical\<close> is true
  exactly when \<open>total_float\<close> is the integer 0. The test is the exact \<^verbatim>\<open>== 0\<close> on an integer
  number of days; a task whose total float was never set (\<^verbatim>\<open>None\<close>) is not critical.
\<close>

theorem is_critical_iff_total_float_zero:
  assumes "perform_critical_path_analysis limit df = Inr (results, critical_path)"
    and "r \<in> set results"
  shows "res_is_critical r = (res_total_float r = Some 0)"
proof -
  obtain tasks where run: "analysed_tasks limit df = Inr (tasks, critical_path)"
    and res: "results = map (result_of \<circ> snd) tasks"
    using perform_results[OF assms(1)] by blast
  obtain k t where entry: "(k, t) \<in> set tasks" and r: "r = result_of t"
    using assms(2) res by auto
  show ?thesis
    using analysed_tasks_entry(2)[OF run entry] r by (simp add: result_of_def)
qed

theorem is_critical_iff_total_float_zero_witness:
  "perform_critical_path_analysis 1000 half_day_rows = Inr (half_day_results, [''A'', ''C'']) \<and>
   half_day_results ! 1 \<in> set half_day_results \<and>
   res_total_float (half_day_results ! 1) = Some 3 \<and>
   res_is_critical (half_day_results ! 1) = (res_total_float (half_day_results ! 1) = Some 0)"
proof -
  have run: "perform_critical_path_analysis 1000 half_day_rows = Inr (half_day_results, [''A'', ''C''])"
    by code_simp
  have mem: "half_day_results ! 1 \<in> set half_day_results"
    by (simp add: half_day_results_def)
  have "res_total_float (half_day_results ! 1) = Some 3"
    by (simp add: half_day_results_def)
  then show ?thesis
    using run mem is_critical_iff_total_float_zero[OF run mem] by simp
qed

text \<open>
  C7, as amended. After a successful run, for every task of the result table that has an
  early start \<open>es\<close> and a late start \<open>ls\<close>: early finish minus early start and late finish
  minus late start both equal the duration of the task (that of the last record with its
  id), the differences \<open>ls - es\<close> and \<open>lf - ef\<close> agree, and \<open>total_float\<close> is the number of whole
  days in that difference (\<^verbatim>\<open>.days\<close>, rounded down), not the difference itself.
\<close>

theorem resolved_task_dates_and_total_float:
  assumes "perform_critical_path_analysis limit df = Inr (results, critical_path)"
    and "r \<in> set results"
    and "res_early_start r = Some es"
    and "res_late_start r = Some ls"
  shows "\<exists>x ef lf. last_row df (res_task_id r) = Some x \<and>
           res_early_finish r = Some ef \<and> res_late_finish r = Some lf \<and>
           ef - es = planned_duration x \<and> lf - ls = planned_duration x \<and>
           ls - es = lf - ef \<and>
           res_total_float r = Some (days (ls - es)) \<and>
           res_total_float r = Some (days (lf - ef))"
proof -
  obtain tasks where run: "analysed_tasks limit df = Inr (tasks, critical_path)"
    and res: "results = map (result_of \<circ> snd) tasks"
    using perform_results[OF assms(1)] by blast
  obtain k t where entry: "(k, t) \<in> set tasks" and r: "r = result_of t"
    using assms(2) res by auto
  note f = analysed_tasks_entry[OF run entry]
  have es: "early_start t = Some es" and ls: "late_start t = Some ls"
    using assms(3,4) r by (simp_all add: result_of_def)
  obtain x where x: "last_row df k = Some x" and dur: "planned_duration x = duration t"
    using f(6) by auto
  have ef: "early_finish t = Some (es + duration t)" using f(3) es by simp
  have lf: "late_finish t = Some (ls + duration t)" using f(4) ls by simp
  have tf: "total_float t = Some (days (ls - es))" using f(5) es ls by simp
  show ?thesis
    using x dur ef lf tf f(1) r by (simp add: result_of_def)
qed

theorem resolved_task_dates_and_total_float_witness:
  "perform_critical_path_analysis 1000 half_day_rows = Inr (half_day_results, [''A'', ''C'']) \<and>
   half_day_results ! 1 \<in> set half_day_results \<and>
   res_early_start (half_day_results ! 1) = Some 0 \<and>
   res_late_start (half_day_results ! 1) = Some 302400000000000 \<and>
   res_total_float (half_day_results ! 1) = Some (days (302400000000000 - 0))"
proof -
  have run: "perform_critical_path_analysis 1000 half_day_rows = Inr (half_day_results, [''A'', ''C''])"
    by code_simp
  have mem: "half_day_results ! 1 \<in> set half_day_results"
    by (simp add: half_day_results_def)
  have es: "res_early_start (half_day_results ! 1) = Some 0"
    and ls: "res_late_start (half_day_results ! 1) = Some 302400000000000"
    by (simp_all add: half_day_results_def)
  show ?thesis
    using run mem es ls resolved_task_dates_and_total_float[OF run mem es ls] by auto
qed

text \<open>
  C7 as claimed fails on \<open>half_day_rows\<close>: B starts at the earliest on day 0 and at the
  latest on day 3 and a half, and its total float is 3 days.
\<close>

theorem total_float_is_not_the_date_difference:
  "perform_critical_path_analysis 1000 half_day_rows = Inr (half_day_results, [''A'', ''C'']) \<and>
   res_task_id (half_day_results ! 1) = ''B'' \<and>
   res_early_start (half_day_results ! 1) = Some 0 \<and>
   res_late_start (half_day_results ! 1) = Some (3 * ns_per_day + ns_per_day div 2) \<and>
   res_total_float (half_day_results ! 1) = Some 3 \<and>
   3 * ns_per_day \<noteq> (3 * ns_per_day + ns_per_day div 2) - 0"
  by code_simp

text \<open>
  C10, as amended. After a successful run the critical path is one flat list: the ids of
  exactly the critical tasks, in the order of the result table (the order in which the
  ids first occur in the input). No chains are built and no successor edge is followed.
\<close>

theorem critical_path_is_critical_tasks_in_table_order:
  assumes "perform_critical_path_analysis limit df = Inr (results, critical_path)"
  shows "critical_path = map res_task_id (filter res_is_critical results)"
proof -
  obtain tasks where run: "analysed_tasks limit df = Inr (tasks, critical_path)"
    and res: "results = map (result_of \<circ> snd) tasks"
    using perform_results[OF assms(1)] by blast
  have ids: "\<forall>(k, t) \<in> set tasks. task_id t = k"
    using analysed_tasks_entry(1)[OF run] by auto
  have "map res_task_id (filter res_is_critical results)
          = map (task_id \<circ> snd) (filter (is_critical \<circ> snd) tasks)"
    by (simp add: res filter_map comp_def result_of_def)
  also have "\<dots> = map fst (filter (is_critical \<circ> snd) tasks)"
    using ids by (intro map_cong) auto
  finally show ?thesis using analysed_tasks_critical_path[OF run] by simp
qed

theorem critical_path_is_critical_tasks_in_table_order_witness:
  "perform_critical_path_analysis 1000 reversed_chain_rows = Inr (reversed_chain_results, [''C'', ''B'', ''A'']) \<and>
   [''C'', ''B'', ''A''] = map res_task_id (filter res_is_critical reversed_chain_results)"
proof -
  have run: "perform_critical_path_analysis 1000 reversed_chain_rows =
               Inr (reversed_chain_results, [''C'', ''B'', ''A''])"
    by code_simp
  show ?thesis
    using run critical_path_is_critical_tasks_in_table_order[OF run] by simp
qed

text \<open>
  C10 as claimed fails on \<open>reversed_chain_rows\<close>: all of A, B, C are critical, the chain runs
  from the source A over B to the sink C, and the returned path is C, B, A.
\<close>

theorem critical_path_not_in_successor_order:
  "perform_critical_path_analysis 1000 reversed_chain_rows =
     Inr (reversed_chain_results, [''C'', ''B'', ''A''])"
  by code_simp

section \<open>The task table built from the records\<close>

lemma keys_create_task_objects: "fst ` set (create_task_objects df) = row_task_id ` set df"
proof -
  have "fst ` set (create_task_objects df) = set (map fst (create_task_objects df))" by simp
  also have "\<dots> = set (map fst (insert_rows df))" by (simp only: map_fst_create_task_objects)
  also have "\<dots> = row_task_id ` set df" using keys_insert_rows by simp
  finally show ?thesis .
qed

lemma distinct_create_task_objects: "distinct (map fst (create_task_objects df))"
  by (simp add: map_fst_create_task_objects distinct_insert_rows)

text \<open>
  C4, as amended. The engine has no duplicate check: when a record has an id that is
  already in the table, the table has one task for every id that occurs in the input, and the task stored under an id
  is the one made from the last record with that id (only its successor list is filled in
  afterwards). The earlier record is overwritten without a trace.
\<close>

theorem duplicate_id_keeps_last_record:
  "distinct (map fst (create_task_objects df)) \<and>
   fst ` set (create_task_objects df) = row_task_id ` set df \<and>
   map_option (\<lambda>t. t\<lparr>successors := []\<rparr>) (map_of (create_task_objects df) k)
     = map_option Task_init (last_row df k)"
proof -
  have "map_option (\<lambda>t. t\<lparr>successors := []\<rparr>) (map_of (create_task_objects df) k)
     = map_option Task_init (last_row df k)"
    by (cases "last_row df k") (simp_all add: map_of_create_task_objects Task_init_def)
  then show ?thesis
    using distinct_create_task_objects keys_create_task_objects by blast
qed

text \<open>
  C4 as claimed fails on \<open>duplicate_rows\<close>: the run returns a table, and A has the duration
  of the second record with the id A (early finish day 3).
\<close>

theorem duplicate_id_is_not_an_error:
  "perform_critical_path_analysis 1000 duplicate_rows = Inr (duplicate_results, [''A'', ''B''])"
  by code_simp

lemma links_view_modify:
  "map (links_to p \<circ> snd) (modify q (append_successor s) tasks) = map (links_to p \<circ> snd) tasks"
  by (induction tasks) (auto simp: modify_def links_to_def append_successor_def)

lemma links_view_link_task:
  "map (links_to p \<circ> snd) (link_task u tasks) = map (links_to p \<circ> snd) tasks"
proof -
  have "map (links_to p \<circ> snd) (fold (\<lambda>pred_id tasks.
             if has_key tasks pred_id then modify pred_id (append_successor (task_id u)) tasks
             else tasks) ps tasks) = map (links_to p \<circ> snd) tasks" for ps
    by (induction ps arbitrary: tasks) (simp_all add: links_view_modify)
  then show ?thesis by (simp add: link_task_def)
qed

lemma links_view_create:
  "map (links_to p) (map snd (create_task_objects df)) = map (links_to p) (map snd (insert_rows df))"
proof -
  have "map (links_to p \<circ> snd) (fold link_task us tasks) = map (links_to p \<circ> snd) tasks" for us tasks
    by (induction us arbitrary: tasks) (simp_all add: links_view_link_task)
  then show ?thesis by (simp add: create_task_objects_def Let_def)
qed

section \<open>Late dates after the backward pass\<close>

lemma fold_min_in_set: "fold min ds (d :: int) \<in> set (d # ds)"
proof (induction ds arbitrary: d)
  case Nil
  then show ?case by simp
next
  case (Cons a ds)
  have "fold min ds (min a d) \<in> set (min a d # ds)" by (rule Cons.IH)
  moreover have "min a d = a \<or> min a d = d" by (simp add: min_def)
  ultimately show ?case by fastforce
qed

lemma map_filter_mem:
  "x \<in> set (List.map_filter f xs) \<Longrightarrow> \<exists>y \<in> set xs. f y = Some x"
  by (induction xs) (auto split: option.splits)

lemma succ_start_dates_mem:
  assumes "x \<in> set (succ_start_dates tasks t)"
  shows "\<exists>s \<in> set (successors t). \<exists>u. map_of tasks s = Some u \<and> late_start u = Some x"
  using assms by (auto simp: succ_start_dates_def bind_eq_Some_conv dest!: map_filter_mem)

lemma bwd_visit_sink:
  "successors (bwd_visit tasks t) = [] \<longrightarrow> late_finish (bwd_visit tasks t) = early_finish (bwd_visit tasks t)"
  by (simp add: bwd_visit_def Let_def split: list.splits option.splits)

lemma bwd_visit_late_start:
  assumes "late_finish t = None" and "late_start t = None"
  shows "late_start (bwd_visit tasks t) =
           map_option (\<lambda>f. f - duration (bwd_visit tasks t)) (late_finish (bwd_visit tasks t))"
  using assms by (simp add: bwd_visit_def Let_def split: list.splits option.splits)

lemma bwd_visit_late_finish:
  assumes "late_finish (bwd_visit tasks t) = Some lf" and "successors t \<noteq> []"
  shows "early_finish t = Some lf \<or> lf \<in> set (succ_start_dates tasks t)"
proof (cases "succ_start_dates tasks t")
  case Nil
  then show ?thesis using assms by (simp add: bwd_visit_def Let_def split: option.splits)
next
  case (Cons d ds)
  then have "lf = fold min ds d"
    using assms by (simp add: bwd_visit_def Let_def split: option.splits)
  then show ?thesis using fold_min_in_set[of ds d] Cons by simp
qed

lemma map_fst_bwd_process_task:
  "map fst (fst (bwd_process_task n tid tasks)) = map fst tasks"
  by (rule bwd_process_task_inv[where I = "\<lambda>ts. map fst ts = map fst tasks"])
     (simp_all add: map_fst_modify)

lemma bwd_process_task_local:
  assumes visit: "\<And>k tasks t. R k t \<Longrightarrow> late_finish t = None \<Longrightarrow> R k (bwd_visit tasks t)"
    and init: "\<forall>(k, t) \<in> set tasks. R k t"
  shows "\<forall>(k, t) \<in> set (fst (bwd_process_task n tid tasks)). R k t"
proof (rule bwd_process_task_inv[where I = "\<lambda>ts. \<forall>(k, t) \<in> set ts. R k t"])
  fix ts tid t
  assume all: "\<forall>(k, t) \<in> set ts. R k t" and look: "map_of ts tid = Some t"
    and lf: "late_finish t = None"
  have "R tid t" using all map_of_SomeD[OF look] by auto
  then have "R tid (bwd_visit ts t)" using lf by (rule visit)
  with all show "\<forall>(k, t) \<in> set (modify tid (\<lambda>_. bwd_visit ts t) ts). R k t"
    by (rule all_entries_modify_const)
qed (rule init)

text \<open>A processed task without successors has its own early finish as late finish.\<close>

lemma bwd_process_task_sink_kept:
  assumes "\<forall>(k, t) \<in> set tasks. successors t = [] \<longrightarrow> late_finish t \<noteq> None \<longrightarrow> late_finish t = early_finish t"
  shows "\<forall>(k, t) \<in> set (fst (bwd_process_task n tid tasks)).
           successors t = [] \<longrightarrow> late_finish t \<noteq> None \<longrightarrow> late_finish t = early_finish t"
proof (rule bwd_process_task_local[where R = "\<lambda>k t. successors t = [] \<longrightarrow> late_finish t \<noteq> None \<longrightarrow> late_finish t = early_finish t"])
  fix k :: string and tasks and t :: task
  show "successors (bwd_visit tasks t) = [] \<longrightarrow> late_finish (bwd_visit tasks t) \<noteq> None \<longrightarrow>
          late_finish (bwd_visit tasks t) = early_finish (bwd_visit tasks t)"
    using bwd_visit_sink[of tasks t] by simp
qed (rule assms)

lemma bwd_process_task_sink_done_kept:
  assumes "\<forall>(k, t) \<in> set tasks. k = y \<longrightarrow> successors t = [] \<longrightarrow> late_finish t = early_finish t"
  shows "\<forall>(k, t) \<in> set (fst (bwd_process_task n tid tasks)).
           k = y \<longrightarrow> successors t = [] \<longrightarrow> late_finish t = early_finish t"
proof (rule bwd_process_task_local[where R = "\<lambda>k t. k = y \<longrightarrow> successors t = [] \<longrightarrow> late_finish t = early_finish t"])
  fix k :: string and tasks and t :: task
  show "k = y \<longrightarrow> successors (bwd_visit tasks t) = [] \<longrightarrow>
          late_finish (bwd_visit tasks t) = early_finish (bwd_visit tasks t)"
    using bwd_visit_sink[of tasks t] by simp
qed (rule assms)

lemma bwd_process_task_sink_done:
  assumes run: "bwd_process_task n tid tasks = (tasks', None)"
    and dist: "distinct (map fst tasks)"
    and kept: "\<forall>(k, t) \<in> set tasks. successors t = [] \<longrightarrow> late_finish t \<noteq> None \<longrightarrow> late_finish t = early_finish t"
  shows "\<forall>(k, t) \<in> set tasks'. k = tid \<longrightarrow> successors t = [] \<longrightarrow> late_finish t = early_finish t"
proof (cases n)
  case 0
  then show ?thesis using run by simp
next
  case (Suc m)
  show ?thesis
  proof (cases "map_of tasks tid")
    case None
    then have "tid \<notin> fst ` set tasks" by (simp add: map_of_eq_None_iff)
    moreover have "tasks' = tasks" using run Suc None by simp
    ultimately show ?thesis by force
  next
    case (Some t)
    show ?thesis
    proof (cases "late_finish t")
      case None
      let ?ts1 = "modify tid (\<lambda>_. bwd_visit tasks t) tasks"
      have v: "successors (bwd_visit tasks t) = [] \<longrightarrow>
                 late_finish (bwd_visit tasks t) = early_finish (bwd_visit tasks t)"
        by (rule bwd_visit_sink)
      have "\<forall>(k, t) \<in> set ?ts1. k = tid \<longrightarrow> successors t = [] \<longrightarrow> late_finish t = early_finish t"
      proof (clarify)
        fix k t' assume "(tid, t') \<in> set ?ts1" "successors t' = []"
        then have "t' = bwd_visit tasks t" by (auto dest!: in_set_modifyD)
        then show "late_finish t' = early_finish t'" using v \<open>successors t' = []\<close> by simp
      qed
      then have "\<forall>(k, t) \<in> set (fst (for_each (\<lambda>pred_id tasks.
                           if has_key tasks pred_id then bwd_process_task m pred_id tasks
                           else (tasks, None)) (predecessors t) ?ts1)).
                 k = tid \<longrightarrow> successors t = [] \<longrightarrow> late_finish t = early_finish t"
      proof (rule for_each_inv)
        fix x and s :: tasks
        assume "\<forall>(k, t) \<in> set s. k = tid \<longrightarrow> successors t = [] \<longrightarrow> late_finish t = early_finish t"
        then show "\<forall>(k, t) \<in> set (fst (if has_key s x then bwd_process_task m x s else (s, None))).
                 k = tid \<longrightarrow> successors t = [] \<longrightarrow> late_finish t = early_finish t"
          using bwd_process_task_sink_done_kept[of s tid m x] by (cases "has_key s x") simp_all
      qed
      then show ?thesis using run Suc Some None by simp
    next
      case (Some lf)
      have same: "tasks' = tasks" using run Suc \<open>map_of tasks tid = Some t\<close> Some by simp
      have "t' = t" if "(tid, t') \<in> set tasks" for t'
        using map_of_is_SomeI[OF dist that] \<open>map_of tasks tid = Some t\<close> by simp
      moreover have "successors t = [] \<longrightarrow> late_finish t = early_finish t"
        using kept map_of_SomeD[OF \<open>map_of tasks tid = Some t\<close>] Some by auto
      ultimately show ?thesis using same by auto
    qed
  qed
qed

text \<open>A loop that ends without an exception has handled every element.\<close>

lemma for_each_done:
  assumes run: "for_each f xs s = (s', None)"
    and inv: "\<And>x s. J s \<Longrightarrow> J (fst (f x s))"
    and fin: "\<And>x s s'. x \<in> set xs \<Longrightarrow> J s \<Longrightarrow> f x s = (s', None) \<Longrightarrow> Q x s'"
    and kept: "\<And>x y s. Q y s \<Longrightarrow> Q y (fst (f x s))"
    and init: "J s"
  shows "\<forall>x \<in> set xs. Q x s'"
  using run init fin
proof (induction xs arbitrary: s)
  case Nil
  then show ?case by simp
next
  case (Cons x xs)
  obtain s1 e where fx: "f x s = (s1, e)" by (cases "f x s")
  have e: "e = None" and rest: "for_each f xs s1 = (s', None)"
    using Cons.prems(1) fx by (auto split: option.splits)
  have J1: "J s1" using inv[OF Cons.prems(2), of x] fx by simp
  have Qx: "Q x s1" using Cons.prems(3)[of x s s1] Cons.prems(2) fx e by simp
  have "Q x (fst (for_each f xs s1))"
    using Qx by (rule for_each_inv) (rule kept)
  then have "Q x s'" using rest by simp
  moreover have "\<forall>y \<in> set xs. Q y s'"
  proof (rule Cons.IH[OF rest J1])
    fix y s2 s3
    assume "y \<in> set xs" "J s2" "f y s2 = (s3, None)"
    then show "Q y s3" using Cons.prems(3)[of y s2 s3] by simp
  qed
  ultimately show ?case by simp
qed

lemma backward_pass_successors:
  "\<forall>(k, t) \<in> set (fst (backward_pass limit tasks)).
      \<exists>t0. (k, t0) \<in> set tasks \<and> successors t0 = successors t"
proof (rule backward_pass_local[where R = "\<lambda>k t. \<exists>t0. (k, t0) \<in> set tasks \<and> successors t0 = successors t"])
  fix k :: string and ts and t :: task
  assume *: "\<exists>t0. (k, t0) \<in> set tasks \<and> successors t0 = successors t"
  then show "\<exists>t0. (k, t0) \<in> set tasks \<and> successors t0 = successors (bwd_visit ts t)"
    by (subst bwd_visit_fields) simp
  show "\<exists>t0. (k, t0) \<in> set tasks \<and> successors t0 = successors (t\<lparr>late_finish := early_finish t\<rparr>)"
    using * by simp
qed auto

lemma backward_pass_with_sinks:
  assumes "filter (\<lambda>t. successors t = []) (map snd tasks) \<noteq> []"
  shows "backward_pass limit tasks =
           for_each (\<lambda>t. bwd_process_task limit (task_id t))
             (filter (\<lambda>t. successors t = []) (map snd tasks)) tasks"
  using assms by (simp add: backward_pass_def Let_def)

lemma backward_pass_sinks:
  assumes run: "backward_pass limit tasks = (tasks', None)"
    and dist: "distinct (map fst tasks)"
    and fresh: "\<forall>(k, t) \<in> set tasks. late_finish t = None"
    and ids: "\<forall>(k, t) \<in> set tasks. task_id t = k"
    and entry: "(k, t) \<in> set tasks'"
    and sink: "successors t = []"
  shows "late_finish t = early_finish t"
proof -
  let ?ends = "filter (\<lambda>t. successors t = []) (map snd tasks)"
  let ?f = "\<lambda>t. bwd_process_task limit (task_id t)"
  let ?J = "\<lambda>s :: tasks. distinct (map fst s) \<and>
              (\<forall>(k, t) \<in> set s. successors t = [] \<longrightarrow> late_finish t \<noteq> None \<longrightarrow> late_finish t = early_finish t)"
  let ?Q = "\<lambda>(x :: task) (s :: tasks). \<forall>(k, t) \<in> set s. k = task_id x \<longrightarrow> successors t = [] \<longrightarrow> late_finish t = early_finish t"
  have "tasks' = fst (backward_pass limit tasks)" using run by simp
  then obtain t0 where t0: "(k, t0) \<in> set tasks" and s0: "successors t0 = successors t"
    using backward_pass_successors[of limit tasks] entry by auto
  have id0: "task_id t0 = k" using ids t0 by auto
  have mem: "t0 \<in> set ?ends" using t0 s0 sink by force
  then have "?ends \<noteq> []" by (cases ?ends) simp_all
  then have loop: "for_each ?f ?ends tasks = (tasks', None)"
    using run backward_pass_with_sinks by simp
  have "\<forall>x \<in> set ?ends. ?Q x tasks'"
  proof (rule for_each_done[where J = ?J and Q = ?Q, OF loop])
    fix x :: task and s :: tasks
    assume "?J s"
    then show "?J (fst (?f x s))"
      using bwd_process_task_sink_kept[of s limit "task_id x"]
      by (simp add: map_fst_bwd_process_task)
  next
    fix x :: task and s s' :: tasks
    assume "?J s" and "?f x s = (s', None)"
    then show "?Q x s'"
      using bwd_process_task_sink_done[of limit "task_id x" s s'] by simp
  next
    fix x y :: task and s :: tasks
    assume "?Q y s"
    then show "?Q y (fst (?f x s))"
      by (rule bwd_process_task_sink_done_kept)
  next
    show "?J tasks" using dist fresh by auto
  qed
  then have "?Q t0 tasks'" using mem by blast
  then show ?thesis using entry sink id0 by auto
qed

lemma backward_pass_late_start:
  assumes fresh: "\<forall>(k, t) \<in> set tasks. late_start t = None \<and> late_finish t = None"
    and sinks: "filter (\<lambda>t. successors t = []) (map snd tasks) \<noteq> []"
  shows "\<forall>(k, t) \<in> set (fst (backward_pass limit tasks)).
           late_start t = map_option (\<lambda>f. f - duration t) (late_finish t)"
proof -
  let ?R = "\<lambda>(k :: string) t. late_start t = map_option (\<lambda>f. f - duration t) (late_finish t)"
  have init: "\<forall>(k, t) \<in> set tasks. ?R k t" using fresh by auto
  have "\<forall>(k, t) \<in> set (fst (for_each (\<lambda>t. bwd_process_task limit (task_id t))
             (filter (\<lambda>t. successors t = []) (map snd tasks)) tasks)). ?R k t"
    using init
  proof (rule for_each_inv)
    fix x and s :: tasks
    assume all: "\<forall>(k, t) \<in> set s. ?R k t"
    show "\<forall>(k, t) \<in> set (fst (bwd_process_task limit (task_id x) s)). ?R k t"
    proof (rule bwd_process_task_local[where R = ?R])
      fix k :: string and ts and t :: task
      assume "?R k t" and "late_finish t = None"
      then have "late_start t = None" by simp
      then show "?R k (bwd_visit ts t)"
        using \<open>late_finish t = None\<close> by (simp add: bwd_visit_late_start)
    qed (rule all)
  qed
  then show ?thesis using backward_pass_with_sinks[OF sinks] by simp
qed

lemma backward_pass_late_finish_origin:
  assumes fresh: "\<forall>(k, t) \<in> set tasks. late_start t = None \<and> late_finish t = None"
  shows "\<forall>(k, t) \<in> set (fst (backward_pass limit tasks)). \<forall>lf.
           successors t \<noteq> [] \<longrightarrow> late_finish t = Some lf \<longrightarrow>
             early_finish t = Some lf \<or>
             (\<exists>s \<in> set (successors t). \<exists>u.
                map_of (fst (backward_pass limit tasks)) s = Some u \<and> late_start u = Some lf)"
proof -
  define NI where "NI = (\<lambda>ts :: tasks. \<forall>(k, t) \<in> set ts. \<forall>lf.
           successors t \<noteq> [] \<longrightarrow> late_finish t = Some lf \<longrightarrow>
             early_finish t = Some lf \<or>
             (\<exists>s \<in> set (successors t). \<exists>u. map_of ts s = Some u \<and> late_start u = Some lf))"
  define BI where "BI = (\<lambda>ts :: tasks. \<forall>(k, t) \<in> set ts.
           \<forall>ls. late_start t = Some ls \<longrightarrow> late_finish t = Some (ls + duration t))"
  have "NI (fst (backward_pass limit tasks)) \<and> BI (fst (backward_pass limit tasks))"
  proof (rule backward_pass_inv[where I = "\<lambda>ts. NI ts \<and> BI ts"])
    fix ts :: tasks and tid t
    assume I: "NI ts \<and> BI ts" and look: "map_of ts tid = Some t" and lf0: "late_finish t = None"
    let ?v = "bwd_visit ts t"
    let ?ts1 = "modify tid (\<lambda>_. ?v) ts"
    have tin: "(tid, t) \<in> set ts" using map_of_SomeD[OF look] .
    have bt: "\<forall>ls. late_start t = Some ls \<longrightarrow> late_finish t = Some (ls + duration t)"
      using I tin by (auto simp: BI_def)
    then have ls0: "late_start t = None" using lf0 by (cases "late_start t") auto
    have key: "\<exists>u'. map_of ?ts1 s = Some u' \<and> late_start u' = Some x"
      if "map_of ts s = Some u" "late_start u = Some x" for s u x
    proof (cases "s = tid")
      case True
      then show ?thesis using that look ls0 by simp
    next
      case False
      then show ?thesis using that by (simp add: map_of_modify)
    qed
    have entries: "(k' = tid \<and> t' = ?v) \<or> (k' \<noteq> tid \<and> (k', t') \<in> set ts)"
      if "(k', t') \<in> set ?ts1" for k' t'
      using that by (auto dest!: in_set_modifyD)
    have bv: "\<forall>ls. late_start ?v = Some ls \<longrightarrow> late_finish ?v = Some (ls + duration ?v)"
      using bt lf0 by (rule bwd_visit_late)
    have sv: "successors ?v = successors t" and ev: "early_finish ?v = early_finish t"
      by (subst bwd_visit_fields, simp)+
    have nv: "early_finish ?v = Some lf \<or>
             (\<exists>s \<in> set (successors ?v). \<exists>u. map_of ?ts1 s = Some u \<and> late_start u = Some lf)"
      if "successors ?v \<noteq> []" "late_finish ?v = Some lf" for lf
    proof -
      have "early_finish t = Some lf \<or> lf \<in> set (succ_start_dates ts t)"
        using that sv by (intro bwd_visit_late_finish) simp_all
      then show ?thesis
      proof
        assume "early_finish t = Some lf"
        then show ?thesis using ev by simp
      next
        assume "lf \<in> set (succ_start_dates ts t)"
        then obtain s u where s: "s \<in> set (successors t)"
          and u: "map_of ts s = Some u" "late_start u = Some lf"
          using succ_start_dates_mem by blast
        obtain u' where "map_of ?ts1 s = Some u'" "late_start u' = Some lf"
          using key[OF u] by blast
        then show ?thesis using s sv by auto
      qed
    qed
    have "BI ?ts1"
      unfolding BI_def
    proof (clarify)
      fix k' t' ls assume "(k', t') \<in> set ?ts1" "late_start t' = Some ls"
      then show "late_finish t' = Some (ls + duration t')"
        using entries[of k' t'] bv I by (auto simp: BI_def)
    qed
    moreover have "NI ?ts1"
      unfolding NI_def
    proof (clarify)
      fix k' t' lf
      assume e: "(k', t') \<in> set ?ts1" and ne: "successors t' \<noteq> []" and l: "late_finish t' = Some lf"
        and nots: "\<not> (\<exists>s \<in> set (successors t'). \<exists>u. map_of ?ts1 s = Some u \<and> late_start u = Some lf)"
      show "early_finish t' = Some lf"
      proof (cases "k' = tid \<and> t' = ?v")
        case True
        then show ?thesis using nv[of lf] ne l nots by auto
      next
        case False
        then have old: "(k', t') \<in> set ts" using entries[OF e] by auto
        then have "early_finish t' = Some lf \<or>
             (\<exists>s \<in> set (successors t'). \<exists>u. map_of ts s = Some u \<and> late_start u = Some lf)"
          using I ne l by (auto simp: NI_def)
        then show ?thesis using key nots by blast
      qed
    qed
    ultimately show "NI ?ts1 \<and> BI ?ts1" by simp
  next
    fix latest
    let ?ts1 = "modify (task_id latest) (\<lambda>t. t\<lparr>late_finish := early_finish t\<rparr>) tasks"
    have "BI ?ts1" unfolding BI_def using fresh by (auto dest!: in_set_modifyD)
    moreover have "NI ?ts1" unfolding NI_def using fresh by (auto dest!: in_set_modifyD)
    ultimately show "NI ?ts1 \<and> BI ?ts1" by simp
  next
    show "NI tasks \<and> BI tasks" unfolding NI_def BI_def using fresh by auto
  qed
  then show ?thesis by (simp add: NI_def)
qed

lemma forward_pass_distinct:
  "distinct (map fst (fst (forward_pass limit (create_task_objects df))))"
  by (simp add: map_fst_forward_pass distinct_create_task_objects)

lemma forward_pass_task_id:
  "\<forall>(k, t) \<in> set (fst (forward_pass limit (create_task_objects df))). task_id t = k"
proof (rule forward_pass_local[where R = "\<lambda>k t. task_id t = k"])
  fix k tasks and t :: task
  assume "task_id t = k"
  then show "task_id (fwd_visit tasks t) = k" by (subst fwd_visit_fields) simp
next
  show "\<forall>(k, t) \<in> set (create_task_objects df). task_id t = k"
    by (rule create_task_objects_local[where R = "\<lambda>k t. task_id t = k"])
       (auto simp: task_id_Task_init append_successor_def dest: last_row_SomeD)
qed

text \<open>
  What the backward pass does establish when it ends without an exception: a task without
  successors has its own early finish as late finish; a late start is the late finish
  minus the duration; and a late finish of a task with successors is the late start of one
  of its successors or the task's own early finish.
\<close>

lemma backward_pass_late_dates:
  assumes "backward_pass limit (fst (forward_pass limit (create_task_objects df))) = (tasks, None)"
    and "(k, t) \<in> set tasks"
  shows "(successors t = [] \<longrightarrow> late_finish t = early_finish t) \<and>
         (\<forall>ls. late_start t = Some ls \<longrightarrow> late_finish t = Some (ls + duration t)) \<and>
         ((\<exists>(k', t') \<in> set tasks. successors t' = []) \<longrightarrow>
            late_start t = map_option (\<lambda>f. f - duration t) (late_finish t)) \<and>
         (\<forall>lf. successors t \<noteq> [] \<longrightarrow> late_finish t = Some lf \<longrightarrow>
            early_finish t = Some lf \<or>
            (\<exists>s \<in> set (successors t). \<exists>u. map_of tasks s = Some u \<and> late_start u = Some lf))"
proof -
  let ?ts0 = "fst (forward_pass limit (create_task_objects df))"
  have res: "tasks = fst (backward_pass limit ?ts0)" using assms(1) by simp
  have fresh: "\<forall>(k, t) \<in> set ?ts0. late_start t = None \<and> late_finish t = None"
    by (rule forward_pass_no_late)
  have c1: "successors t = [] \<longrightarrow> late_finish t = early_finish t"
  proof
    assume "successors t = []"
    show "late_finish t = early_finish t"
    proof (rule backward_pass_sinks[OF assms(1) forward_pass_distinct _ forward_pass_task_id assms(2)])
      show "\<forall>(k, t) \<in> set ?ts0. late_finish t = None" using fresh by auto
    qed fact
  qed
  have c2: "\<forall>ls. late_start t = Some ls \<longrightarrow> late_finish t = Some (ls + duration t)"
    using passes_late[of limit df] assms(2) res by (auto simp: passes_def)
  have c3: "(\<exists>(k', t') \<in> set tasks. successors t' = []) \<longrightarrow>
            late_start t = map_option (\<lambda>f. f - duration t) (late_finish t)"
  proof
    assume "\<exists>(k', t') \<in> set tasks. successors t' = []"
    then obtain k' t' where "(k', t') \<in> set tasks" "successors t' = []" by auto
    then obtain t0 where "(k', t0) \<in> set ?ts0" "successors t0 = []"
      using backward_pass_successors[of limit ?ts0] res by force
    then have "t0 \<in> set (filter (\<lambda>t. successors t = []) (map snd ?ts0))" by force
    then have "filter (\<lambda>t. successors t = []) (map snd ?ts0) \<noteq> []"
      by (cases "filter (\<lambda>t. successors t = []) (map snd ?ts0)") simp_all
    then show "late_start t = map_option (\<lambda>f. f - duration t) (late_finish t)"
      using backward_pass_late_start[OF fresh, of limit] assms(2) res by auto
  qed
  have c4: "\<forall>lf. successors t \<noteq> [] \<longrightarrow> late_finish t = Some lf \<longrightarrow>
            early_finish t = Some lf \<or>
            (\<exists>s \<in> set (successors t). \<exists>u. map_of tasks s = Some u \<and> late_start u = Some lf)"
    using backward_pass_late_finish_origin[OF fresh, of limit] assms(2) res by auto
  show ?thesis using c1 c2 c3 c4 by blast
qed

lemma backward_pass_late_dates_example:
  "backward_pass 1000 (fst (forward_pass 1000 (create_task_objects reversed_chain_rows)))
     = (reversed_chain_tasks, None) \<and>
   reversed_chain_tasks ! 1 \<in> set reversed_chain_tasks \<and>
   successors (snd (reversed_chain_tasks ! 0)) = [] \<and>
   late_finish (snd (reversed_chain_tasks ! 0)) = early_finish (snd (reversed_chain_tasks ! 0)) \<and>
   successors (snd (reversed_chain_tasks ! 1)) = [''C''] \<and>
   late_finish (snd (reversed_chain_tasks ! 1)) = Some (5 * ns_per_day) \<and>
   late_start (snd (reversed_chain_tasks ! 1)) = Some (5 * ns_per_day - duration (snd (reversed_chain_tasks ! 1))) \<and>
   map_option late_start (map_of reversed_chain_tasks ''C'') = Some (Some (5 * ns_per_day))"
proof -
  have run: "backward_pass 1000 (fst (forward_pass 1000 (create_task_objects reversed_chain_rows)))
     = (reversed_chain_tasks, None)"
    by code_simp
  have m0: "(''C'', snd (reversed_chain_tasks ! 0)) \<in> set reversed_chain_tasks"
    by (simp add: reversed_chain_tasks_def)
  have m1: "(''B'', snd (reversed_chain_tasks ! 1)) \<in> set reversed_chain_tasks"
    by (simp add: reversed_chain_tasks_def)
  have mem: "reversed_chain_tasks ! 1 \<in> set reversed_chain_tasks"
    by (simp add: reversed_chain_tasks_def)
  have s0: "successors (snd (reversed_chain_tasks ! 0)) = []"
    and s1: "successors (snd (reversed_chain_tasks ! 1)) = [''C'']"
    and lf1: "late_finish (snd (reversed_chain_tasks ! 1)) = Some (5 * ns_per_day)"
    and ls2: "map_option late_start (map_of reversed_chain_tasks ''C'') = Some (Some (5 * ns_per_day))"
    by (simp_all add: reversed_chain_tasks_def Task_init_def)
  have sink: "\<exists>(k', t') \<in> set reversed_chain_tasks. successors t' = []"
    using m0 s0 by blast
  have "late_finish (snd (reversed_chain_tasks ! 0)) = early_finish (snd (reversed_chain_tasks ! 0))"
    using backward_pass_late_dates[OF run m0] s0 by blast
  moreover have "late_start (snd (reversed_chain_tasks ! 1))
       = map_option (\<lambda>f. f - duration (snd (reversed_chain_tasks ! 1))) (late_finish (snd (reversed_chain_tasks ! 1)))"
    using backward_pass_late_dates[OF run m1] sink by blast
  ultimately show ?thesis
    using run mem s0 s1 lf1 ls2 by simp
qed

text \<open>
  C6. Claimed: after the backward pass a task with successors has as late finish the
  minimum of the late starts of all its successors. On \<open>two_sink_rows\<close> the forward pass is
  right and the backward pass ends without an exception; A has the successors S1 and S2
  with the late starts day 5 and day 1, and the late finish of A is day 5, not day 1. A was
  reached from S1 and finalised before S2 was processed. The run returns A with the total
  float 4 and leaves it off the critical path.
\<close>

theorem late_finish_ignores_unresolved_successor:
  "snd (backward_pass 1000 (fst (forward_pass 1000 (create_task_objects two_sink_rows)))) = None \<and>
   map (\<lambda>(k, t). (k, successors t, late_start t, late_finish t)) (passes 1000 two_sink_rows) =
     [(''P'', [''S1''], Some 0, Some (5 * ns_per_day)),
      (''A'', [''S1'', ''S2''], Some (4 * ns_per_day), Some (5 * ns_per_day)),
      (''S1'', [], Some (5 * ns_per_day), Some (6 * ns_per_day)),
      (''S2'', [], Some ns_per_day, Some (2 * ns_per_day))] \<and>
   perform_critical_path_analysis 1000 two_sink_rows = Inr (two_sink_results, [''P'', ''S1'', ''S2''])"
  by code_simp

section \<open>Schedules with a cycle\<close>

lemma for_each_skip:
  "\<forall>x \<in> set xs. f x s = (s, None) \<Longrightarrow> for_each f xs s = (s, None)"
  by (induction xs) simp_all

lemma forward_pass_without_start_task:
  assumes "\<forall>(k, t) \<in> set tasks. predecessors t \<noteq> []"
  shows "forward_pass limit tasks = (tasks, None)"
  unfolding forward_pass_def using assms by (intro for_each_skip) auto

lemma free_float_values_TypeError:
  assumes "early_finish t = None" and "\<exists>s \<in> set ss. map_of tasks s \<noteq> None"
  shows "free_float_values tasks t ss = Inl TypeError"
  using assms(2)
proof (induction ss)
  case Nil
  then show ?case by simp
next
  case (Cons s ss)
  show ?case
  proof (cases "map_of tasks s")
    case None
    then have "\<exists>s \<in> set ss. map_of tasks s \<noteq> None" using Cons.prems by auto
    then show ?thesis using None Cons.IH by simp
  next
    case (Some u)
    then show ?thesis using assms(1) by (simp split: option.splits)
  qed
qed

lemma create_task_objects_successors:
  assumes "(k, t) \<in> set (create_task_objects df)"
  shows "set (successors t) \<subseteq> fst ` set (create_task_objects df)"
proof -
  have "map_of (create_task_objects df) k = Some t"
    using assms distinct_create_task_objects by simp
  then have "successors t = concat (map (links_to k) (map snd (insert_rows df)))"
    by (auto simp: map_of_create_task_objects)
  moreover have "set (links_to k u) \<subseteq> fst ` set (insert_rows df)" if u: "u \<in> snd ` set (insert_rows df)" for u
  proof -
    obtain k' where "(k', u) \<in> set (insert_rows df)" using u by force
    then have "task_id u \<in> fst ` set (insert_rows df)"
      using insert_rows_task_id by force
    then show ?thesis by (auto simp: links_to_def)
  qed
  ultimately have "set (successors t) \<subseteq> fst ` set (insert_rows df)" by auto
  moreover have "fst ` set (create_task_objects df) = fst ` set (insert_rows df)"
    using map_fst_create_task_objects[of df] by (metis list.set_map)
  ultimately show ?thesis by simp
qed

text \<open>
  C2, as amended. The engine has no cycle detection and no \<^verbatim>\<open>CycleDetected\<close> error. When
  every task of a non-empty table has a predecessor reference and a successor (then the
  schedule has a cycle and neither a start nor an end task, as in A, B, C, A), the run
  fails with a \<^verbatim>\<open>TypeError\<close> raised by the free float computation, and the caller gets
  no table. Other schedules with a cycle are not rejected.
\<close>

theorem cycle_through_every_task_raises_TypeError:
  assumes "df \<noteq> []"
    and "\<forall>(k, t) \<in> set (create_task_objects df). predecessors t \<noteq> [] \<and> successors t \<noteq> []"
  shows "perform_critical_path_analysis limit df = Inl TypeError"
proof -
  let ?ts0 = "create_task_objects df"
  let ?K = "fst ` set ?ts0"
  let ?R = "\<lambda>(k :: string) t. early_start t = None \<and> early_finish t = None \<and>
              successors t \<noteq> [] \<and> set (successors t) \<subseteq> ?K"
  have "\<forall>(k, t) \<in> set ?ts0. predecessors t \<noteq> []" using assms(2) by auto
  then have fwd: "fst (forward_pass limit ?ts0) = ?ts0"
    by (simp add: forward_pass_without_start_task)
  have early0: "\<forall>(k, t) \<in> set ?ts0. early_start t = None \<and> early_finish t = None"
    by (rule create_task_objects_local[where R = "\<lambda>k t. early_start t = None \<and> early_finish t = None"])
       (simp_all add: Task_init_def append_successor_def)
  have init: "\<forall>(k, t) \<in> set ?ts0. ?R k t"
    using early0 assms(2) create_task_objects_successors[of _ _ df] by blast
  have all: "\<forall>(k, t) \<in> set (passes limit df). ?R k t"
    unfolding passes_def fwd
  proof (rule backward_pass_local[where R = ?R, OF _ _ init])
    fix k :: string and ts and t :: task
    assume *: "?R k t"
    then show "?R k (bwd_visit ts t)" by (subst (1 2 3 4) bwd_visit_fields) simp
    show "?R k (t\<lparr>late_finish := early_finish t\<rparr>)" using * by simp
  qed
  have keys: "map fst (passes limit df) = map fst ?ts0"
    by (simp add: map_fst_passes map_fst_create_task_objects)
  have "?ts0 \<noteq> []" using assms(1) keys_create_task_objects[of df] by auto
  then have "passes limit df \<noteq> []" using keys by (metis map_is_Nil_conv)
  then obtain k t rest where ts: "passes limit df = (k, t) # rest"
    by (cases "passes limit df") auto
  have Rt: "?R k t" using all ts by auto
  then obtain s where s: "s \<in> set (successors t)" by (cases "successors t") auto
  then have "s \<in> fst ` set (passes limit df)"
    using Rt keys by (metis (no_types, lifting) list.set_map subsetD)
  then have "map_of (passes limit df) s \<noteq> None" by (simp add: map_of_eq_None_iff)
  then have "free_float_values (passes limit df) t (successors t) = Inl TypeError"
    using Rt s by (intro free_float_values_TypeError) auto
  then have "set_free_float (passes limit df) t = Inl TypeError"
    using Rt by (simp add: set_free_float_def)
  moreover have "set_total_float t [] = (t, [])"
    using Rt by (simp add: set_total_float_def)
  ultimately have "analysed_tasks limit df = Inl TypeError"
    by (simp add: analysed_tasks_def calculate_floats_and_critical_path_def ts)
  then show ?thesis by (simp add: perform_critical_path_analysis_def)
qed

theorem cycle_through_every_task_raises_TypeError_witness:
  "cycle_rows \<noteq> [] \<and>
   list_all (\<lambda>(k, t). predecessors t \<noteq> [] \<and> successors t \<noteq> []) (create_task_objects cycle_rows) \<and>
   perform_critical_path_analysis 1000 cycle_rows = Inl TypeError"
proof -
  have ne: "cycle_rows \<noteq> []" by (simp add: cycle_rows_def)
  have la: "list_all (\<lambda>(k, t). predecessors t \<noteq> [] \<and> successors t \<noteq> []) (create_task_objects cycle_rows)"
    by code_simp
  then have all: "\<forall>(k, t) \<in> set (create_task_objects cycle_rows). predecessors t \<noteq> [] \<and> successors t \<noteq> []"
    by (simp add: list_all_iff)
  show ?thesis
    using ne la cycle_through_every_task_raises_TypeError[OF ne all, of 1000] by simp
qed

text \<open>
  C2 as claimed fails on \<open>fed_cycle_rows\<close>: A and B depend on each other, and the run returns
  a table with early dates and free floats for all three tasks and an empty critical path.
\<close>

theorem cycle_behind_start_task_returns_table:
  "perform_critical_path_analysis 1000 fed_cycle_rows = Inr (fed_cycle_results, [])"
  by code_simp

section \<open>References to ids that no record defines\<close>

lemma drop_dangling_fields:
  "task_id (drop_dangling D t) = task_id t"
  "name (drop_dangling D t) = name t"
  "planned_start (drop_dangling D t) = planned_start t"
  "duration (drop_dangling D t) = duration t"
  "predecessors (drop_dangling D t) = filter (\<lambda>p. p \<notin> D (task_id t)) (predecessors t)"
  "successors (drop_dangling D t) = successors t"
  "early_start (drop_dangling D t) = early_start t"
  "early_finish (drop_dangling D t) = early_finish t"
  "late_start (drop_dangling D t) = late_start t"
  "late_finish (drop_dangling D t) = late_finish t"
  "total_float (drop_dangling D t) = total_float t"
  "free_float (drop_dangling D t) = free_float t"
  "is_critical (drop_dangling D t) = is_critical t"
  by (simp_all add: drop_dangling_def)

lemma drop_dangling_updates:
  "drop_dangling D (t\<lparr>successors := ss\<rparr>) = (drop_dangling D t)\<lparr>successors := ss\<rparr>"
  "drop_dangling D (t\<lparr>early_start := a\<rparr>) = (drop_dangling D t)\<lparr>early_start := a\<rparr>"
  "drop_dangling D (t\<lparr>early_finish := a\<rparr>) = (drop_dangling D t)\<lparr>early_finish := a\<rparr>"
  "drop_dangling D (t\<lparr>late_start := a\<rparr>) = (drop_dangling D t)\<lparr>late_start := a\<rparr>"
  "drop_dangling D (t\<lparr>late_finish := a\<rparr>) = (drop_dangling D t)\<lparr>late_finish := a\<rparr>"
  "drop_dangling D (t\<lparr>total_float := b\<rparr>) = (drop_dangling D t)\<lparr>total_float := b\<rparr>"
  "drop_dangling D (t\<lparr>free_float := b\<rparr>) = (drop_dangling D t)\<lparr>free_float := b\<rparr>"
  "drop_dangling D (t\<lparr>is_critical := c\<rparr>) = (drop_dangling D t)\<lparr>is_critical := c\<rparr>"
  by (simp_all add: drop_dangling_def)

lemma map_fst_strip_dangling: "map fst (strip_dangling D tasks) = map fst tasks"
  by (induction tasks) (auto simp: strip_dangling_def)

lemma map_snd_strip_dangling: "map snd (strip_dangling D tasks) = map (drop_dangling D) (map snd tasks)"
  by (induction tasks) (auto simp: strip_dangling_def)

lemma map_of_strip_dangling:
  "map_of (strip_dangling D tasks) k = map_option (drop_dangling D) (map_of tasks k)"
  by (induction tasks) (auto simp: strip_dangling_def)

lemma has_key_strip_dangling: "has_key (strip_dangling D tasks) k = has_key tasks k"
  by (simp add: has_key_def map_of_strip_dangling)

lemma modify_strip_dangling:
  assumes "\<And>t. f' (drop_dangling D t) = drop_dangling D (f t)"
  shows "modify k f' (strip_dangling D tasks) = strip_dangling D (modify k f tasks)"
  using assms by (induction tasks) (auto simp: strip_dangling_def modify_def)

lemma update_strip_dangling:
  "AList.update k (drop_dangling D v) (strip_dangling D tasks) = strip_dangling D (AList.update k v tasks)"
  by (induction tasks) (auto simp: strip_dangling_def)

lemma no_key_in: "fst ` set tasks \<inter> (\<Union>k. D k) = {} \<Longrightarrow> p \<in> D j \<Longrightarrow> \<not> has_key tasks p"
  by (auto simp: has_key_def map_of_eq_None_iff)

lemma keys_modify: "fst ` set (modify k f tasks) = fst ` set tasks"
proof -
  have "set (map fst (modify k f tasks)) = set (map fst tasks)" by (simp only: map_fst_modify)
  then show ?thesis by simp
qed

subsection \<open>Loops run on both tables\<close>

lemma for_each_sim:
  assumes "I s"
    and "\<And>x s. x \<in> set xs \<Longrightarrow> I s \<Longrightarrow> f' (d x) (h s) = apfst h (f x s)"
    and "\<And>x s. x \<in> set xs \<Longrightarrow> I s \<Longrightarrow> I (fst (f x s))"
  shows "for_each f' (map d xs) (h s) = apfst h (for_each f xs s)"
  using assms
proof (induction xs arbitrary: s)
  case Nil
  then show ?case by simp
next
  case (Cons x xs)
  obtain s1 e where fx: "f x s = (s1, e)" by (cases "f x s")
  have f'x: "f' (d x) (h s) = (h s1, e)" using Cons.prems(2)[of x s] Cons.prems(1) fx by simp
  have I1: "I s1" using Cons.prems(3)[of x s] Cons.prems(1) fx by simp
  show ?case
  proof (cases e)
    case None
    have "for_each f' (map d xs) (h s1) = apfst h (for_each f xs s1)"
      using I1 Cons.prems(2,3) by (intro Cons.IH) auto
    then show ?thesis using fx f'x None by simp
  next
    case (Some a)
    then show ?thesis using fx f'x by simp
  qed
qed

lemma for_each_sim_filter:
  assumes "I s"
    and "\<And>x s. x \<in> set xs \<Longrightarrow> P x \<Longrightarrow> I s \<Longrightarrow> f' x (h s) = apfst h (f x s)"
    and "\<And>x s. x \<in> set xs \<Longrightarrow> \<not> P x \<Longrightarrow> I s \<Longrightarrow> f x s = (s, None)"
    and "\<And>x s. x \<in> set xs \<Longrightarrow> I s \<Longrightarrow> I (fst (f x s))"
  shows "for_each f' (filter P xs) (h s) = apfst h (for_each f xs s)"
  using assms
proof (induction xs arbitrary: s)
  case Nil
  then show ?case by simp
next
  case (Cons x xs)
  show ?case
  proof (cases "P x")
    case False
    have fx: "f x s = (s, None)" using Cons.prems(3)[of x s] False Cons.prems(1) by simp
    have "for_each f' (filter P xs) (h s) = apfst h (for_each f xs s)"
      using Cons.prems by (intro Cons.IH) auto
    then show ?thesis using False fx by simp
  next
    case True
    obtain s1 e where fx: "f x s = (s1, e)" by (cases "f x s")
    have f'x: "f' x (h s) = (h s1, e)" using Cons.prems(2)[of x s] True Cons.prems(1) fx by simp
    have I1: "I s1" using Cons.prems(4)[of x s] Cons.prems(1) fx by simp
    show ?thesis
    proof (cases e)
      case None
      have "for_each f' (filter P xs) (h s1) = apfst h (for_each f xs s1)"
        using I1 Cons.prems(2,3,4) by (intro Cons.IH) auto
      then show ?thesis using fx f'x None True by simp
    next
      case (Some a)
      then show ?thesis using fx f'x True by simp
    qed
  qed
qed

lemma map_filter_filter_skip:
  assumes "\<And>x. P x \<Longrightarrow> f' x = f x" and "\<And>x. \<not> P x \<Longrightarrow> f x = None"
  shows "List.map_filter f' (filter P xs) = List.map_filter f xs"
  using assms by (induction xs) (auto split: option.splits)

lemma map_filter_same:
  assumes "\<And>x. f' x = f x"
  shows "List.map_filter f' xs = List.map_filter f xs"
  using assms by (induction xs) (auto split: option.splits)

subsection \<open>The table without the references\<close>

lemma link_task_strip_dangling:
  assumes "fst ` set tasks \<inter> (\<Union>k. D k) = {}"
  shows "link_task (drop_dangling D u) (strip_dangling D tasks) = strip_dangling D (link_task u tasks)"
proof -
  let ?g = "\<lambda>pred_id tasks.
             if has_key tasks pred_id then modify pred_id (append_successor (task_id u)) tasks
             else tasks"
  have "fst ` set ts \<inter> (\<Union>k. D k) = {} \<Longrightarrow>
        fold ?g (filter (\<lambda>p. p \<notin> D (task_id u)) ps) (strip_dangling D ts) = strip_dangling D (fold ?g ps ts)" for ps ts
  proof (induction ps arbitrary: ts)
    case Nil
    then show ?case by simp
  next
    case (Cons p ps)
    show ?case
    proof (cases "p \<in> D (task_id u)")
      case True
      then have "\<not> has_key ts p" using no_key_in[OF Cons.prems] by simp
      then show ?thesis using True Cons.IH[OF Cons.prems] by simp
    next
      case False
      show ?thesis
      proof (cases "has_key ts p")
        case True
        have m: "modify p (append_successor (task_id u)) (strip_dangling D ts)
                   = strip_dangling D (modify p (append_successor (task_id u)) ts)"
          by (rule modify_strip_dangling) (simp add: append_successor_def drop_dangling_def)
        have "fst ` set (modify p (append_successor (task_id u)) ts) \<inter> (\<Union>k. D k) = {}"
          using Cons.prems by (simp add: keys_modify)
        then show ?thesis
          using True False m Cons.IH by (simp add: has_key_strip_dangling)
      next
        case nk: False
        then show ?thesis using False Cons.IH[OF Cons.prems] by (simp add: has_key_strip_dangling)
      qed
    qed
  qed
  from this[of tasks "predecessors u"]
  have "fold ?g (filter (\<lambda>p. p \<notin> D (task_id u)) (predecessors u)) (strip_dangling D tasks)
          = strip_dangling D (fold ?g (predecessors u) tasks)"
    using assms by simp
  moreover have "task_id (drop_dangling D u) = task_id u"
    and "predecessors (drop_dangling D u) = filter (\<lambda>p. p \<notin> D (task_id u)) (predecessors u)"
    by (simp_all add: drop_dangling_def)
  ultimately show ?thesis by (simp only: link_task_def)
qed

lemma keys_link_task: "fst ` set (link_task u tasks) = fst ` set tasks"
proof -
  have "set (map fst (link_task u tasks)) = set (map fst tasks)" by (simp only: map_fst_link_task)
  then show ?thesis by simp
qed

lemma fold_link_task_strip_dangling:
  assumes "fst ` set tasks \<inter> (\<Union>k. D k) = {}"
  shows "fold link_task (map (drop_dangling D) us) (strip_dangling D tasks)
           = strip_dangling D (fold link_task us tasks)"
  using assms
proof (induction us arbitrary: tasks)
  case Nil
  then show ?case by simp
next
  case (Cons u us)
  have "fst ` set (link_task u tasks) \<inter> (\<Union>k. D k) = {}" using Cons.prems by (simp add: keys_link_task)
  then show ?case using Cons.IH link_task_strip_dangling[OF Cons.prems] by simp
qed

lemma insert_rows_strip_dangling:
  assumes "list_all2 (\<lambda>r r'. Task_init r' = drop_dangling D (Task_init r)) df df'"
  shows "insert_rows df' = strip_dangling D (insert_rows df)"
proof -
  have "fold (\<lambda>r tasks. AList.update (row_task_id r) (Task_init r) tasks) df' (strip_dangling D acc)
        = strip_dangling D (fold (\<lambda>r tasks. AList.update (row_task_id r) (Task_init r) tasks) df acc)" for acc
    using assms
  proof (induction df df' arbitrary: acc rule: list_all2_induct)
    case Nil
    then show ?case by simp
  next
    case (Cons r df r' df')
    have "task_id (Task_init r') = task_id (Task_init r)"
      using Cons.hyps(1) by (simp add: drop_dangling_fields)
    then have id: "row_task_id r' = row_task_id r" by (simp add: task_id_Task_init)
    show ?case
      using Cons.IH[of "AList.update (row_task_id r) (Task_init r) acc"] Cons.hyps(1) id
      by (simp add: update_strip_dangling[symmetric])
  qed
  from this[of "[]"] show ?thesis by (simp add: insert_rows_def strip_dangling_def)
qed

lemma create_task_objects_strip_dangling:
  assumes "references_removed D df df'" and "row_task_id ` set df \<inter> (\<Union>k. D k) = {}"
  shows "create_task_objects df' = strip_dangling D (create_task_objects df)"
proof -
  have ins: "insert_rows df' = strip_dangling D (insert_rows df)"
    using assms(1) by (intro insert_rows_strip_dangling) (simp add: references_removed_def)
  have "fst ` set (insert_rows df) \<inter> (\<Union>k. D k) = {}" using assms(2) by (simp add: keys_insert_rows)
  then have "fold link_task (map (drop_dangling D) (map snd (insert_rows df)))
               (strip_dangling D (insert_rows df))
             = strip_dangling D (fold link_task (map snd (insert_rows df)) (insert_rows df))"
    by (rule fold_link_task_strip_dangling)
  then show ?thesis
    by (simp only: create_task_objects_def Let_def ins map_snd_strip_dangling)
qed

subsection \<open>The forward pass without the references\<close>

lemma pred_finish_dates_strip_dangling:
  assumes "fst ` set tasks \<inter> (\<Union>k. D k) = {}"
  shows "pred_finish_dates (strip_dangling D tasks) (drop_dangling D t) = pred_finish_dates tasks t"
proof -
  have "List.map_filter (\<lambda>p. Option.bind (map_of (strip_dangling D tasks) p) early_finish)
          (filter (\<lambda>p. p \<notin> D (task_id t)) (predecessors t))
        = List.map_filter (\<lambda>p. Option.bind (map_of tasks p) early_finish) (predecessors t)"
  proof (rule map_filter_filter_skip)
    fix p
    show "Option.bind (map_of (strip_dangling D tasks) p) early_finish
            = Option.bind (map_of tasks p) early_finish"
      by (cases "map_of tasks p") (simp_all add: map_of_strip_dangling drop_dangling_fields)
  next
    fix p assume "\<not> p \<notin> D (task_id t)"
    then have "map_of tasks p = None" using assms by (auto simp: map_of_eq_None_iff)
    then show "Option.bind (map_of tasks p) early_finish = None" by simp
  qed
  then show ?thesis by (simp add: pred_finish_dates_def drop_dangling_fields)
qed

lemma fwd_visit_strip_dangling:
  assumes "fst ` set tasks \<inter> (\<Union>k. D k) = {}"
    and "predecessors t \<noteq> [] \<longrightarrow> filter (\<lambda>p. p \<notin> D (task_id t)) (predecessors t) \<noteq> []"
  shows "fwd_visit (strip_dangling D tasks) (drop_dangling D t) = drop_dangling D (fwd_visit tasks t)"
proof -
  have e: "(predecessors (drop_dangling D t) = []) = (predecessors t = [])"
    using assms(2) by (auto simp: drop_dangling_fields)
  show ?thesis
    unfolding fwd_visit_def pred_finish_dates_strip_dangling[OF assms(1)] e
    by (simp add: Let_def drop_dangling_fields drop_dangling_updates split: list.splits option.splits)
qed

lemma dangling_inv_fwd_visit:
  assumes inv: "dangling_inv D ts" and look: "map_of ts tid = Some t"
  shows "dangling_inv D (modify tid (\<lambda>_. fwd_visit ts t) ts)"
proof -
  have tin: "(tid, t) \<in> set ts" using map_of_SomeD[OF look] .
  have p: "predecessors (fwd_visit ts t) = predecessors t"
    and i: "task_id (fwd_visit ts t) = task_id t"
    by (subst fwd_visit_fields, simp)+
  have "\<forall>(k, t) \<in> set (modify tid (\<lambda>_. fwd_visit ts t) ts).
          predecessors t \<noteq> [] \<longrightarrow> filter (\<lambda>p. p \<notin> D (task_id t)) (predecessors t) \<noteq> []"
    using inv tin p i by (auto simp: dangling_inv_def dest!: in_set_modifyD)
  then show ?thesis using inv by (simp add: dangling_inv_def keys_modify)
qed

lemma dangling_inv_fwd_process_task:
  "dangling_inv D tasks \<Longrightarrow> dangling_inv D (fst (fwd_process_task n tid tasks))"
  by (rule fwd_process_task_inv[where I = "dangling_inv D"]) (rule dangling_inv_fwd_visit)

lemma fwd_process_task_strip_dangling:
  "dangling_inv D tasks \<Longrightarrow>
   fwd_process_task n tid (strip_dangling D tasks) = apfst (strip_dangling D) (fwd_process_task n tid tasks)"
proof (induction n arbitrary: tid tasks)
  case 0
  then show ?case by simp
next
  case (Suc n)
  show ?case
  proof (cases "map_of tasks tid")
    case None
    then show ?thesis by (simp add: map_of_strip_dangling)
  next
    case (Some t)
    have tin: "(tid, t) \<in> set tasks" using map_of_SomeD[OF Some] .
    show ?thesis
    proof (cases "early_start t")
      case (Some a)
      then show ?thesis using \<open>map_of tasks tid = Some t\<close>
        by (simp add: map_of_strip_dangling drop_dangling_fields)
    next
      case None
      let ?f = "\<lambda>succ_id tasks. if has_key tasks succ_id then fwd_process_task n succ_id tasks
                                  else (tasks, None)"
      let ?ts1 = "modify tid (\<lambda>_. fwd_visit tasks t) tasks"
      have keys: "fst ` set tasks \<inter> (\<Union>k. D k) = {}" using Suc.prems by (simp add: dangling_inv_def)
      have good: "predecessors t \<noteq> [] \<longrightarrow> filter (\<lambda>p. p \<notin> D (task_id t)) (predecessors t) \<noteq> []"
        using Suc.prems tin by (auto simp: dangling_inv_def)
      have v: "fwd_visit (strip_dangling D tasks) (drop_dangling D t) = drop_dangling D (fwd_visit tasks t)"
        using keys good by (rule fwd_visit_strip_dangling)
      have m: "modify tid (\<lambda>_. drop_dangling D (fwd_visit tasks t)) (strip_dangling D tasks)
                 = strip_dangling D ?ts1"
        by (rule modify_strip_dangling) simp
      have inv1: "dangling_inv D ?ts1"
        using Suc.prems \<open>map_of tasks tid = Some t\<close> by (rule dangling_inv_fwd_visit)
      have loop: "for_each ?f (map id (successors t)) (strip_dangling D ?ts1)
                    = apfst (strip_dangling D) (for_each ?f (successors t) ?ts1)"
      proof (rule for_each_sim[where I = "dangling_inv D", OF inv1])
        fix x and s :: tasks
        assume "dangling_inv D s"
        then show "?f (id x) (strip_dangling D s) = apfst (strip_dangling D) (?f x s)"
          using Suc.IH[of s x] by (simp add: has_key_strip_dangling)
        show "dangling_inv D (fst (?f x s))"
          using dangling_inv_fwd_process_task[OF \<open>dangling_inv D s\<close>, of n x] \<open>dangling_inv D s\<close>
          by simp
      qed
      have "fwd_process_task (Suc n) tid (strip_dangling D tasks)
              = for_each ?f (successors t) (strip_dangling D ?ts1)"
        using \<open>map_of tasks tid = Some t\<close> None v m
        by (simp add: map_of_strip_dangling drop_dangling_fields)
      also have "\<dots> = apfst (strip_dangling D) (for_each ?f (successors t) ?ts1)"
        using loop by simp
      also have "\<dots> = apfst (strip_dangling D) (fwd_process_task (Suc n) tid tasks)"
        using \<open>map_of tasks tid = Some t\<close> None by simp
      finally show ?thesis .
    qed
  qed
qed

lemma forward_pass_strip_dangling:
  assumes "dangling_inv D tasks"
  shows "forward_pass limit (strip_dangling D tasks) = apfst (strip_dangling D) (forward_pass limit tasks)"
proof -
  let ?f = "\<lambda>t tasks. if predecessors t = [] then fwd_process_task limit (task_id t) tasks
                          else (tasks, None)"
  have "for_each ?f (map (drop_dangling D) (map snd tasks)) (strip_dangling D tasks)
          = apfst (strip_dangling D) (for_each ?f (map snd tasks) tasks)"
  proof (rule for_each_sim[where I = "dangling_inv D", OF assms])
    fix x and s :: tasks
    assume x: "x \<in> set (map snd tasks)" and inv: "dangling_inv D s"
    have "predecessors x \<noteq> [] \<longrightarrow> filter (\<lambda>p. p \<notin> D (task_id x)) (predecessors x) \<noteq> []"
      using x assms by (auto simp: dangling_inv_def)
    then have e: "(predecessors (drop_dangling D x) = []) = (predecessors x = [])"
      by (auto simp: drop_dangling_fields)
    show "?f (drop_dangling D x) (strip_dangling D s) = apfst (strip_dangling D) (?f x s)"
      using fwd_process_task_strip_dangling[OF inv, of limit "task_id x"] e
      by (simp add: drop_dangling_fields)
    show "dangling_inv D (fst (?f x s))"
      using dangling_inv_fwd_process_task[OF inv, of limit "task_id x"] inv by simp
  qed
  then show ?thesis by (simp add: forward_pass_def map_snd_strip_dangling)
qed

subsection \<open>The backward pass without the references\<close>

lemma bwd_visit_strip_dangling:
  "bwd_visit (strip_dangling D tasks) (drop_dangling D t) = drop_dangling D (bwd_visit tasks t)"
proof -
  have "List.map_filter (\<lambda>s. Option.bind (map_of (strip_dangling D tasks) s) late_start) (successors t)
        = List.map_filter (\<lambda>s. Option.bind (map_of tasks s) late_start) (successors t)"
  proof (rule map_filter_same)
    fix s
    show "Option.bind (map_of (strip_dangling D tasks) s) late_start
            = Option.bind (map_of tasks s) late_start"
      by (cases "map_of tasks s") (simp_all add: map_of_strip_dangling drop_dangling_fields)
  qed
  then have s: "succ_start_dates (strip_dangling D tasks) (drop_dangling D t) = succ_start_dates tasks t"
    by (simp add: succ_start_dates_def drop_dangling_fields)
  show ?thesis
    unfolding bwd_visit_def s
    by (simp add: Let_def drop_dangling_fields drop_dangling_updates split: list.splits option.splits)
qed

lemma keys_bwd_process_task:
  "fst ` set (fst (bwd_process_task n tid tasks)) = fst ` set tasks"
proof -
  have "set (map fst (fst (bwd_process_task n tid tasks))) = set (map fst tasks)"
    by (simp only: map_fst_bwd_process_task)
  then show ?thesis by simp
qed

lemma bwd_process_task_strip_dangling:
  "fst ` set tasks \<inter> (\<Union>k. D k) = {} \<Longrightarrow>
   bwd_process_task n tid (strip_dangling D tasks) = apfst (strip_dangling D) (bwd_process_task n tid tasks)"
proof (induction n arbitrary: tid tasks)
  case 0
  then show ?case by simp
next
  case (Suc n)
  show ?case
  proof (cases "map_of tasks tid")
    case None
    then show ?thesis by (simp add: map_of_strip_dangling)
  next
    case (Some t)
    show ?thesis
    proof (cases "late_finish t")
      case (Some a)
      then show ?thesis using \<open>map_of tasks tid = Some t\<close>
        by (simp add: map_of_strip_dangling drop_dangling_fields)
    next
      case None
      let ?f = "\<lambda>pred_id tasks. if has_key tasks pred_id then bwd_process_task n pred_id tasks
                                  else (tasks, None)"
      let ?ts1 = "modify tid (\<lambda>_. bwd_visit tasks t) tasks"
      have m: "modify tid (\<lambda>_. drop_dangling D (bwd_visit tasks t)) (strip_dangling D tasks)
                 = strip_dangling D ?ts1"
        by (rule modify_strip_dangling) simp
      have keys1: "fst ` set ?ts1 \<inter> (\<Union>k. D k) = {}" using Suc.prems by (simp add: keys_modify)
      have loop: "for_each ?f (filter (\<lambda>p. p \<notin> D (task_id t)) (predecessors t)) (strip_dangling D ?ts1)
                    = apfst (strip_dangling D) (for_each ?f (predecessors t) ?ts1)"
      proof (rule for_each_sim_filter[where I = "\<lambda>s. fst ` set s \<inter> (\<Union>k. D k) = {}", OF keys1])
        fix x and s :: tasks
        assume k: "fst ` set s \<inter> (\<Union>k. D k) = {}"
        show "?f x (strip_dangling D s) = apfst (strip_dangling D) (?f x s)"
          using Suc.IH[OF k, of x] by (simp add: has_key_strip_dangling)
        show "fst ` set (fst (?f x s)) \<inter> (\<Union>k. D k) = {}"
          using k by (simp add: keys_bwd_process_task)
        assume "\<not> x \<notin> D (task_id t)"
        then show "?f x s = (s, None)" using no_key_in[OF k, of x] by simp
      qed
      have "bwd_process_task (Suc n) tid (strip_dangling D tasks)
              = for_each ?f (filter (\<lambda>p. p \<notin> D (task_id t)) (predecessors t)) (strip_dangling D ?ts1)"
        using \<open>map_of tasks tid = Some t\<close> None m
        by (simp add: map_of_strip_dangling drop_dangling_fields bwd_visit_strip_dangling)
      also have "\<dots> = apfst (strip_dangling D) (for_each ?f (predecessors t) ?ts1)"
        using loop by simp
      also have "\<dots> = apfst (strip_dangling D) (bwd_process_task (Suc n) tid tasks)"
        using \<open>map_of tasks tid = Some t\<close> None by simp
      finally show ?thesis .
    qed
  qed
qed

lemma max_early_finish_from_strip_dangling:
  "max_early_finish_from (drop_dangling D cur) (map (drop_dangling D) ts)
     = map_sum id (drop_dangling D) (max_early_finish_from cur ts)"
  by (induction ts arbitrary: cur) (auto simp: drop_dangling_fields split: option.splits)

lemma max_early_finish_strip_dangling:
  "max_early_finish (map (drop_dangling D) ts) = map_sum id (drop_dangling D) (max_early_finish ts)"
  by (cases ts) (simp_all add: max_early_finish_def max_early_finish_from_strip_dangling)

lemma filter_sinks_strip_dangling:
  "filter (\<lambda>t. successors t = []) (map (drop_dangling D) ts)
     = map (drop_dangling D) (filter (\<lambda>t. successors t = []) ts)"
  by (induction ts) (simp_all add: drop_dangling_fields)

lemma backward_pass_strip_dangling:
  assumes keys: "fst ` set tasks \<inter> (\<Union>k. D k) = {}"
  shows "backward_pass limit (strip_dangling D tasks) = apfst (strip_dangling D) (backward_pass limit tasks)"
proof -
  let ?f = "\<lambda>t. bwd_process_task limit (task_id t)"
  let ?ends = "filter (\<lambda>t. successors t = []) (map snd tasks)"
  have loop: "for_each ?f (map (drop_dangling D) xs) (strip_dangling D s)
                = apfst (strip_dangling D) (for_each ?f xs s)" if "fst ` set s \<inter> (\<Union>k. D k) = {}" for xs and s :: tasks
  proof (rule for_each_sim[where I = "\<lambda>s. fst ` set s \<inter> (\<Union>k. D k) = {}", OF that])
    fix x :: task and s :: tasks
    assume k: "fst ` set s \<inter> (\<Union>k. D k) = {}"
    show "?f (drop_dangling D x) (strip_dangling D s) = apfst (strip_dangling D) (?f x s)"
      using bwd_process_task_strip_dangling[OF k, of limit "task_id x"]
      by (simp add: drop_dangling_fields)
    show "fst ` set (fst (?f x s)) \<inter> (\<Union>k. D k) = {}" using k by (simp add: keys_bwd_process_task)
  qed
  have ends': "filter (\<lambda>t. successors t = []) (map snd (strip_dangling D tasks))
                = map (drop_dangling D) ?ends"
    by (simp only: map_snd_strip_dangling filter_sinks_strip_dangling)
  have mx: "max_early_finish (map snd (strip_dangling D tasks))
              = map_sum id (drop_dangling D) (max_early_finish (map snd tasks))"
    by (simp only: map_snd_strip_dangling max_early_finish_strip_dangling)
  show ?thesis
  proof (cases "?ends = []")
    case False
    then show ?thesis
      unfolding backward_pass_def Let_def ends' mx
      using loop[OF keys, of ?ends] by simp
  next
    case True
    show ?thesis
    proof (cases "max_early_finish (map snd tasks)")
      case (Inl e)
      then show ?thesis
        unfolding backward_pass_def Let_def ends' mx using True by simp
    next
      case (Inr latest)
      let ?seed = "modify (task_id latest) (\<lambda>t. t\<lparr>late_finish := early_finish t\<rparr>) tasks"
      have m: "modify (task_id latest) (\<lambda>t. t\<lparr>late_finish := early_finish t\<rparr>) (strip_dangling D tasks)
                 = strip_dangling D ?seed"
        by (rule modify_strip_dangling) (simp add: drop_dangling_def)
      have "fst ` set ?seed \<inter> (\<Union>k. D k) = {}" using keys by (simp add: keys_modify)
      then have "for_each ?f (map (drop_dangling D) [latest]) (strip_dangling D ?seed)
                = apfst (strip_dangling D) (for_each ?f [latest] ?seed)"
        by (rule loop)
      then show ?thesis
        unfolding backward_pass_def Let_def ends' mx
        using True Inr m by (simp add: drop_dangling_fields)
    qed
  qed
qed

subsection \<open>The float loop without the references\<close>

lemma free_float_values_strip_dangling:
  "free_float_values (strip_dangling D tasks) (drop_dangling D t) ss = free_float_values tasks t ss"
proof (induction ss)
  case Nil
  then show ?case by simp
next
  case (Cons s ss)
  then show ?case
    by (cases "map_of tasks s")
       (simp_all add: map_of_strip_dangling drop_dangling_fields split: option.splits)
qed

lemma set_total_float_strip_dangling:
  "set_total_float (drop_dangling D t) cp = apfst (drop_dangling D) (set_total_float t cp)"
  by (simp add: set_total_float_def Let_def drop_dangling_fields drop_dangling_updates
      split: option.splits)

lemma set_free_float_strip_dangling:
  "set_free_float (strip_dangling D tasks) (drop_dangling D t)
     = map_sum id (drop_dangling D) (set_free_float tasks t)"
  by (simp add: set_free_float_def free_float_values_strip_dangling drop_dangling_fields
      drop_dangling_updates split: sum.splits list.splits)

lemma floats_loop_strip_dangling:
  "floats_loop ks (strip_dangling D tasks) cp
     = map_sum id (apfst (strip_dangling D)) (floats_loop ks tasks cp)"
proof (induction ks arbitrary: tasks cp)
  case Nil
  then show ?case by simp
next
  case (Cons k ks)
  show ?case
  proof (cases "map_of tasks k")
    case None
    then show ?thesis using Cons.IH by (simp add: map_of_strip_dangling)
  next
    case (Some t)
    obtain t1 c1 where tf: "set_total_float t cp = (t1, c1)" by (cases "set_total_float t cp")
    then have tf': "set_total_float (drop_dangling D t) cp = (drop_dangling D t1, c1)"
      by (simp add: set_total_float_strip_dangling)
    show ?thesis
    proof (cases "set_free_float tasks t1")
      case (Inl e)
      then show ?thesis using Some tf tf'
        by (simp add: map_of_strip_dangling set_free_float_strip_dangling)
    next
      case (Inr t2)
      have m: "modify k (\<lambda>_. drop_dangling D t2) (strip_dangling D tasks)
                 = strip_dangling D (modify k (\<lambda>_. t2) tasks)"
        by (rule modify_strip_dangling) simp
      show ?thesis using Some tf tf' Inr m Cons.IH
        by (simp add: map_of_strip_dangling set_free_float_strip_dangling)
    qed
  qed
qed

subsection \<open>The run without the references\<close>

lemma keys_forward_pass: "fst ` set (fst (forward_pass limit tasks)) = fst ` set tasks"
proof -
  have "set (map fst (fst (forward_pass limit tasks))) = set (map fst tasks)"
    by (simp only: map_fst_forward_pass)
  then show ?thesis by simp
qed

lemma passes_strip_dangling:
  assumes rem: "references_removed D df df'"
    and inv: "dangling_inv D (create_task_objects df)"
  shows "passes limit df' = strip_dangling D (passes limit df)"
proof -
  have "fst ` set (create_task_objects df) \<inter> (\<Union>k. D k) = {}" using inv by (simp add: dangling_inv_def)
  then have "row_task_id ` set df \<inter> (\<Union>k. D k) = {}" by (simp add: keys_create_task_objects)
  with rem have c: "create_task_objects df' = strip_dangling D (create_task_objects df)"
    by (rule create_task_objects_strip_dangling)
  have f: "forward_pass limit (strip_dangling D (create_task_objects df))
             = apfst (strip_dangling D) (forward_pass limit (create_task_objects df))"
    using inv by (rule forward_pass_strip_dangling)
  have "fst ` set (fst (forward_pass limit (create_task_objects df))) \<inter> (\<Union>k. D k) = {}"
    using inv by (simp add: keys_forward_pass dangling_inv_def)
  then have b: "backward_pass limit (strip_dangling D (fst (forward_pass limit (create_task_objects df))))
             = apfst (strip_dangling D) (backward_pass limit (fst (forward_pass limit (create_task_objects df))))"
    by (rule backward_pass_strip_dangling)
  show ?thesis by (simp add: passes_def c f b)
qed

lemma result_of_strip_dangling:
  "map (result_of \<circ> snd) (strip_dangling D tasks) = map (result_of \<circ> snd) tasks"
  by (induction tasks) (auto simp: strip_dangling_def result_of_def drop_dangling_fields)

text \<open>
  C5, as amended. Let \<open>D k\<close> be, for every task \<open>k\<close>, ids that no record defines, and let
  every task \<open>k\<close> that has references have one that is not to \<open>D k\<close>. Then the run is the run
  on the same records with the references of each task \<open>k\<close> to \<open>D k\<close> removed: the same
  return value (table and critical path, or
  exception) and the same warning log, so the tasks are processed as if those predecessors
  were absent and nothing about the references is reported. The references stay in the
  predecessor lists, which are the split cells of the records, and add no successor link:
  the successors of a task \<open>k\<close> are the ids of the tasks of the table that name \<open>k\<close>.
\<close>

theorem dangling_reference_is_kept_and_run_as_absent:
  assumes "references_removed D df df'"
    and "\<forall>k. row_task_id ` set df \<inter> D k = {}"
    and "\<forall>(k, t) \<in> set (create_task_objects df).
           predecessors t \<noteq> [] \<longrightarrow> (\<exists>p \<in> set (predecessors t). p \<notin> D k)"
  shows "perform_critical_path_analysis limit df = perform_critical_path_analysis limit df' \<and>
         problematic_tasks limit df = problematic_tasks limit df' \<and>
         (\<forall>k t. map_of (create_task_objects df) k = Some t \<longrightarrow>
            (\<exists>r. last_row df k = Some r \<and>
                 predecessors t = (case pred_task_id r of Some s \<Rightarrow> split_comma_space [] s | None \<Rightarrow> [])) \<and>
            successors t = concat (map (links_to k) (map snd (create_task_objects df))))"
proof -
  have keys: "fst ` set (create_task_objects df) \<inter> (\<Union>k. D k) = {}"
    using assms(2) by (auto simp: keys_create_task_objects)
  have ids: "\<forall>(k, t) \<in> set (create_task_objects df). task_id t = k"
    by (rule create_task_objects_local[where R = "\<lambda>k t. task_id t = k"])
       (auto simp: task_id_Task_init append_successor_def dest: last_row_SomeD)
  have "\<forall>(k, t) \<in> set (create_task_objects df).
          predecessors t \<noteq> [] \<longrightarrow> filter (\<lambda>p. p \<notin> D (task_id t)) (predecessors t) \<noteq> []"
  proof (clarify)
    fix k t
    assume e: "(k, t) \<in> set (create_task_objects df)" and ne: "predecessors t \<noteq> []"
      and f: "filter (\<lambda>p. p \<notin> D (task_id t)) (predecessors t) = []"
    have "task_id t = k" using ids e by auto
    then obtain p where "p \<in> set (predecessors t)" "p \<notin> D (task_id t)"
      using assms(3) e ne by blast
    then have "p \<in> set (filter (\<lambda>p. p \<notin> D (task_id t)) (predecessors t))" by simp
    then show False using f by simp
  qed
  then have inv: "dangling_inv D (create_task_objects df)"
    using keys by (simp add: dangling_inv_def)
  have p: "passes limit df' = strip_dangling D (passes limit df)"
    using assms(1) inv by (rule passes_strip_dangling)
  have a: "analysed_tasks limit df' = map_sum id (apfst (strip_dangling D)) (analysed_tasks limit df)"
    by (simp add: analysed_tasks_def calculate_floats_and_critical_path_def p
        map_fst_strip_dangling floats_loop_strip_dangling)
  have c1: "perform_critical_path_analysis limit df = perform_critical_path_analysis limit df'"
    by (cases "analysed_tasks limit df")
       (auto simp: perform_critical_path_analysis_def a result_of_strip_dangling)
  have "map (\<lambda>t. (task_id t, name t))
          (filter (\<lambda>t. early_start t = None \<or> late_start t = None) (map (drop_dangling D) ts))
        = map (\<lambda>t. (task_id t, name t))
          (filter (\<lambda>t. early_start t = None \<or> late_start t = None) ts)" for ts
    by (induction ts) (simp_all add: drop_dangling_fields)
  then have c2: "problematic_tasks limit df = problematic_tasks limit df'"
    by (simp only: problematic_tasks_def p map_snd_strip_dangling)
  have c3: "\<forall>k t. map_of (create_task_objects df) k = Some t \<longrightarrow>
            (\<exists>r. last_row df k = Some r \<and>
                 predecessors t = (case pred_task_id r of Some s \<Rightarrow> split_comma_space [] s | None \<Rightarrow> [])) \<and>
            successors t = concat (map (links_to k) (map snd (create_task_objects df)))"
  proof (intro allI impI)
    fix k t
    assume "map_of (create_task_objects df) k = Some t"
    then obtain r where r: "last_row df k = Some r"
      and t: "t = (Task_init r)\<lparr>successors := concat (map (links_to k) (map snd (insert_rows df)))\<rparr>"
      by (auto simp: map_of_create_task_objects)
    have "predecessors t = (case pred_task_id r of Some s \<Rightarrow> split_comma_space [] s | None \<Rightarrow> [])"
      using t by (simp add: Task_init_def)
    moreover have "successors t = concat (map (links_to k) (map snd (create_task_objects df)))"
      using t by (simp only: links_view_create) simp
    ultimately show "(\<exists>r. last_row df k = Some r \<and>
                 predecessors t = (case pred_task_id r of Some s \<Rightarrow> split_comma_space [] s | None \<Rightarrow> [])) \<and>
            successors t = concat (map (links_to k) (map snd (create_task_objects df)))"
      using r by blast
  qed
  show ?thesis using c1 c2 c3 by blast
qed

theorem dangling_reference_is_kept_and_run_as_absent_witness:
  "references_removed reference_of_Y mixed_reference_rows mixed_reference_cleaned_rows \<and>
   (\<forall>k. row_task_id ` set mixed_reference_rows \<inter> reference_of_Y k = {}) \<and>
   list_all (\<lambda>(k, t). predecessors t \<noteq> [] \<longrightarrow> (\<exists>p \<in> set (predecessors t). p \<notin> reference_of_Y k))
     (create_task_objects mixed_reference_rows) \<and>
   map (\<lambda>(k, t). (k, predecessors t, successors t)) (create_task_objects mixed_reference_rows)
     = [(''X'', [], [''Y'']), (''Y'', [''X'', ''Z''], []), (''W'', [''Z''], [])] \<and>
   perform_critical_path_analysis 1000 mixed_reference_cleaned_rows
     = Inr (mixed_reference_results, [''X'', ''Y'']) \<and>
   perform_critical_path_analysis 1000 mixed_reference_rows
     = Inr (mixed_reference_results, [''X'', ''Y'']) \<and>
   problematic_tasks 1000 mixed_reference_rows = [(''W'', ''W'')]"
proof -
  have rem: "references_removed reference_of_Y mixed_reference_rows mixed_reference_cleaned_rows"
    by code_simp
  have ids: "\<forall>k. row_task_id ` set mixed_reference_rows \<inter> reference_of_Y k = {}"
    by (simp add: mixed_reference_rows_def example_row_def reference_of_Y_def)
  have la: "list_all (\<lambda>(k, t). predecessors t \<noteq> [] \<longrightarrow> (\<exists>p \<in> set (predecessors t). p \<notin> reference_of_Y k))
     (create_task_objects mixed_reference_rows)"
    by code_simp
  then have all: "\<forall>(k, t) \<in> set (create_task_objects mixed_reference_rows).
           predecessors t \<noteq> [] \<longrightarrow> (\<exists>p \<in> set (predecessors t). p \<notin> reference_of_Y k)"
    by (simp add: list_all_iff)
  have tbl: "map (\<lambda>(k, t). (k, predecessors t, successors t)) (create_task_objects mixed_reference_rows)
     = [(''X'', [], [''Y'']), (''Y'', [''X'', ''Z''], []), (''W'', [''Z''], [])]"
    by code_simp
  have run: "perform_critical_path_analysis 1000 mixed_reference_cleaned_rows
     = Inr (mixed_reference_results, [''X'', ''Y''])"
    by code_simp
  have log: "problematic_tasks 1000 mixed_reference_cleaned_rows = [(''W'', ''W'')]"
    by code_simp
  have "perform_critical_path_analysis 1000 mixed_reference_rows
          = perform_critical_path_analysis 1000 mixed_reference_cleaned_rows"
    and "problematic_tasks 1000 mixed_reference_rows = problematic_tasks 1000 mixed_reference_cleaned_rows"
    using dangling_reference_is_kept_and_run_as_absent[OF rem ids all, of 1000] by blast+
  then show ?thesis using rem ids la tbl run log by simp
qed

text \<open>
  C5 as claimed fails on \<open>dangling_rows\<close>: X, whose only reference dangles, is not processed
  as a task without predecessors (\<open>no_reference_rows\<close>): all its dates stay unset. The
  reference is still in its predecessor list, and the warning log names the task X, not
  the reference. On \<open>dangling_chain_rows\<close> the run ends with a \<^verbatim>\<open>TypeError\<close>.
\<close>

theorem dangling_reference_blocks_task:
  "perform_critical_path_analysis 1000 dangling_rows =
     Inr ([\<lparr>res_task_id = ''X'', res_task_name = ''X'',
             res_early_start = None, res_early_finish = None,
             res_late_start = None, res_late_finish = None,
             res_total_float = None, res_free_float = None, res_is_critical = False\<rparr>], []) \<and>
   perform_critical_path_analysis 1000 no_reference_rows =
     Inr ([\<lparr>res_task_id = ''X'', res_task_name = ''X'',
             res_early_start = Some 0, res_early_finish = Some ns_per_day,
             res_late_start = Some 0, res_late_finish = Some ns_per_day,
             res_total_float = Some 0, res_free_float = Some 0, res_is_critical = True\<rparr>], [''X'']) \<and>
   map (\<lambda>(k, t). (k, predecessors t)) (create_task_objects dangling_rows) = [(''X'', [''Z''])] \<and>
   problematic_tasks 1000 dangling_rows = [(''X'', ''X'')] \<and>
   perform_critical_path_analysis 1000 dangling_chain_rows = Inl TypeError"
  by code_simp

end
